theory Spec2Isabelle
  imports Main "HOL-Library.Word" "HOL-Library.AList"
begin

section \<open>Data model\<close>

text \<open>
  A shallow embedding of the Raft core of tinykv: \<^verbatim>\<open>raft/raft.go\<close> (the role state
  machine) and the log file beside it (\<^verbatim>\<open>RaftLog\<close>).

  Go's \<^verbatim>\<open>uint64\<close> is \<open>64 word\<close>: \<open>+\<close> and \<open>-\<close> wrap, \<open>\<le>\<close> and \<open><\<close> compare unsigned.
  Go's \<^verbatim>\<open>int\<close> (the tick counters) is a 64-bit word as well, read through \<open>sint\<close> where the
  code compares it. Lengths of slices and maps are \<open>nat\<close>.

  A Go panic (an explicit \<^verbatim>\<open>panic\<close>, an index out of range, a nil dereference) ends the
  call: every function that can panic returns \<open>panic + 'a\<close>, with \<open>Inl\<close> the panic.
\<close>

type_synonym u64 = "64 word"
type_synonym go_int = "64 word"

text \<open>
  The two storage errors the log tells apart, any other error a Storage may return, and
  \<^verbatim>\<open>ErrProposalDropped\<close>, which raft.go declares.
\<close>

datatype error = ErrCompacted | ErrUnavailable | ErrOther | ErrProposalDropped

datatype panic =
    PanicError error
  | PanicIndexOutOfRange
  | PanicSliceBounds
  | PanicSliceIndexNegative
  | PanicNilDeref
  | PanicIntn

datatype EntryType = EntryNormal | EntryConfChange

record Entry =
  Entry_Type :: EntryType
  Entry_Term :: u64
  Entry_Index :: u64
  Entry_Data :: "8 word list"

record SnapshotMetadata =
  Snap_Index :: u64
  Snap_Term :: u64

text \<open>
  \<^verbatim>\<open>*pb.Snapshot\<close>: the pointer may be nil (\<open>None\<close>), and so may its \<^verbatim>\<open>Metadata\<close>.
\<close>

record Snapshot =
  Metadata :: "SnapshotMetadata option"

text \<open>
  The \<^verbatim>\<open>Storage\<close> interface, as far as the log calls it. The interface's implementation
  is not part of the sources, so a storage is a parameter: the values it would return.
  The code drops the error of \<^verbatim>\<open>FirstIndex\<close> and \<^verbatim>\<open>LastIndex\<close>; \<^verbatim>\<open>Term\<close> returns Go's pair
  of a value and an error (\<open>None\<close> is \<^verbatim>\<open>nil\<close>).
\<close>

record Storage =
  Storage_FirstIndex :: u64
  Storage_LastIndex :: u64
  Storage_Term :: "u64 \<Rightarrow> u64 \<times> error option"

record RaftLog =
  storage :: Storage
  committed :: u64
  applied :: u64
  stabled :: u64
  entries :: "Entry list"
  pendingSnapshot :: "Snapshot option"
  first :: u64

section \<open>The log\<close>

text \<open>
  Modelled from the spec: \<^verbatim>\<open>IsEmptySnap\<close> is called by the log but defined outside the
  sources. The spec speaks of a pending snapshot whose metadata carries the last included
  index and term; a snapshot is empty when the pointer or its metadata is nil or the
  index is 0.
\<close>

definition IsEmptySnap :: "Snapshot option \<Rightarrow> bool" where
  "IsEmptySnap sp =
     (case sp of
        None \<Rightarrow> True
      | Some s \<Rightarrow> (case Metadata s of None \<Rightarrow> True | Some md \<Rightarrow> Snap_Index md = 0))"

text \<open>
  \<^verbatim>\<open>l.pendingSnapshot.Metadata.Index\<close> and \<^verbatim>\<open>.Term\<close>. The code reads them only after
  \<^verbatim>\<open>!IsEmptySnap\<close>, where both pointers are set; the nil branches are never taken.
\<close>

definition snapIndex :: "Snapshot option \<Rightarrow> u64" where
  "snapIndex sp =
     (case sp of
        None \<Rightarrow> 0
      | Some s \<Rightarrow> (case Metadata s of None \<Rightarrow> 0 | Some md \<Rightarrow> Snap_Index md))"

definition snapTerm :: "Snapshot option \<Rightarrow> u64" where
  "snapTerm sp =
     (case sp of
        None \<Rightarrow> 0
      | Some s \<Rightarrow> (case Metadata s of None \<Rightarrow> 0 | Some md \<Rightarrow> Snap_Term md))"

definition toEntryIndex :: "RaftLog \<Rightarrow> nat \<Rightarrow> u64" where
  "toEntryIndex l si = of_nat si + first l"

text \<open>
  \<^verbatim>\<open>toSliceIndex\<close>: \<^verbatim>\<open>int(ei - l.first)\<close> reads the wrapped difference as a signed
  number and panics when it is negative.
\<close>

definition toSliceIndex :: "RaftLog \<Rightarrow> u64 \<Rightarrow> panic + nat" where
  "toSliceIndex l ei =
     (if sint (ei - first l) < 0 then Inl PanicSliceIndexNegative
      else Inr (unat (ei - first l)))"

definition FirstIndex :: "RaftLog \<Rightarrow> u64" where
  "FirstIndex l = first l"

definition LastIndex :: "RaftLog \<Rightarrow> u64" where
  "LastIndex l =
     (let index = (if \<not> IsEmptySnap (pendingSnapshot l) then snapIndex (pendingSnapshot l) else 0)
      in if length (entries l) > 0 then max (Entry_Index (last (entries l))) index
         else max (Storage_LastIndex (storage l)) index)"

text \<open>
  \<^verbatim>\<open>RaftLog.Term\<close>. The in-memory tail is read first, with no upper bound check: an index
  past the tail is Go's index-out-of-range panic. Otherwise Storage answers, and the
  pending snapshot is consulted only when Storage said Unavailable.
\<close>

definition RaftLog_Term :: "RaftLog \<Rightarrow> u64 \<Rightarrow> panic + (u64 \<times> error option)" where
  "RaftLog_Term l i =
     (if length (entries l) > 0 \<and> first l \<le> i then
        (if unat (i - first l) < length (entries l)
         then Inr (Entry_Term (entries l ! unat (i - first l)), None)
         else Inl PanicIndexOutOfRange)
      else
        (case Storage_Term (storage l) i of (term, err) \<Rightarrow>
           if err = Some ErrUnavailable \<and> \<not> IsEmptySnap (pendingSnapshot l) then
             (if i = snapIndex (pendingSnapshot l) then Inr (snapTerm (pendingSnapshot l), None)
              else if i < snapIndex (pendingSnapshot l) then Inr (term, Some ErrCompacted)
              else Inr (term, err))
           else Inr (term, err)))"

text \<open>
  \<^verbatim>\<open>maybeCompact\<close>. The slice expression \<^verbatim>\<open>l.entries[k:]\<close> panics when \<open>k\<close> is past the
  length. The cursors \<open>applied\<close>, \<open>committed\<close> and \<open>stabled\<close> are not written.
\<close>

definition maybeCompact :: "RaftLog \<Rightarrow> panic + RaftLog" where
  "maybeCompact l =
     (let idx = Storage_FirstIndex (storage l) in
      if first l < idx then
        (if length (entries l) > 0 then
           (case toSliceIndex l idx of
              Inl p \<Rightarrow> Inl p
            | Inr k \<Rightarrow>
                if k \<le> length (entries l)
                then Inr (l\<lparr>entries := drop k (entries l), first := idx\<rparr>)
                else Inl PanicSliceBounds)
         else Inr (l\<lparr>first := idx\<rparr>))
      else Inr l)"

text \<open>\<^verbatim>\<open>isUpToDate\<close> drops the error of \<^verbatim>\<open>Term\<close>, but not its panic.\<close>

definition isUpToDate :: "RaftLog \<Rightarrow> u64 \<Rightarrow> u64 \<Rightarrow> panic + bool" where
  "isUpToDate l index term =
     (let lastIndex = LastIndex l in
      case RaftLog_Term l lastIndex of
        Inl p \<Rightarrow> Inl p
      | Inr (lastLogTerm, _) \<Rightarrow>
          Inr (lastLogTerm < term \<or> (term = lastLogTerm \<and> lastIndex \<le> index)))"

section \<open>Messages, progress and the Raft state\<close>

datatype StateType = StateFollower | StateCandidate | StateLeader

datatype MessageType =
    MsgHup | MsgBeat | MsgPropose | MsgAppend | MsgAppendResponse
  | MsgRequestVote | MsgRequestVoteResponse | MsgSnapshot | MsgHeartbeat
  | MsgHeartbeatResponse | MsgTransferLeader | MsgTimeoutNow

text \<open>
  \<^verbatim>\<open>pb.Message\<close>. The entries of a message are held by value: the Go slices hold pointers
  into the log's array, and nothing proved below depends on that sharing.
\<close>

record Message =
  Msg_MsgType :: MessageType
  Msg_To :: u64
  Msg_From :: u64
  Msg_Term :: u64
  Msg_LogTerm :: u64
  Msg_Index :: u64
  Msg_Entries :: "Entry list"
  Msg_Commit :: u64
  Msg_Snapshot :: "Snapshot option"
  Msg_Reject :: bool

text \<open>The zero value of \<^verbatim>\<open>pb.Message\<close>: a composite literal sets fields of it.\<close>

definition Message0 :: Message where
  "Message0 =
     \<lparr>Msg_MsgType = MsgHup, Msg_To = 0, Msg_From = 0, Msg_Term = 0, Msg_LogTerm = 0,
      Msg_Index = 0, Msg_Entries = [], Msg_Commit = 0, Msg_Snapshot = None,
      Msg_Reject = False\<rparr>"

record Progress =
  Match :: u64
  Next :: u64

text \<open>
  The \<^verbatim>\<open>Raft\<close> struct. The two Go maps are association lists (a Go map has each key once;
  the order of the list is the order in which \<^verbatim>\<open>range\<close> visits the keys, which Go leaves
  open, and the theorems below hold for every list). The field \<open>rand\<close> is not a field in
  Go: it is the state of the global \<^verbatim>\<open>math/rand\<close> source, the sequence of raw numbers it will
  return (\<open>rand r 0\<close> is the next one).
\<close>

record Raft =
  id' :: u64
  Term :: u64
  Vote :: u64
  RaftLog :: RaftLog
  Prs :: "(u64 \<times> Progress) list"
  State :: StateType
  votes :: "(u64 \<times> bool) list"
  msgs :: "Message list"
  Lead :: u64
  heartbeatTimeout :: go_int
  electionTimeout :: go_int
  heartbeatElapsed :: go_int
  electionElapsed :: go_int
  leadTransferee :: u64
  PendingConfIndex :: u64
  randomizedElectionTimeout :: go_int
  rand :: "nat \<Rightarrow> nat"

text \<open>\<^verbatim>\<open>const None uint64 = 0\<close>: the placeholder node id.\<close>

definition None' :: u64 where
  "None' = 0"

section \<open>Library functions the code calls\<close>

text \<open>
  Go's \<^verbatim>\<open>sort.Search(n, f)\<close>: binary search for the least \<open>i\<close> in \<open>[0, n)\<close> with \<open>f i\<close>,
  as the standard library writes it. The predicate may panic (it indexes a slice).
\<close>

function Search_loop :: "(nat \<Rightarrow> panic + bool) \<Rightarrow> nat \<Rightarrow> nat \<Rightarrow> panic + nat" where
  "Search_loop f i j =
     (if i < j then
        (let h = (i + j) div 2 in
         case f h of
           Inl p \<Rightarrow> Inl p
         | Inr b \<Rightarrow> if \<not> b then Search_loop f (h + 1) j else Search_loop f i h)
      else Inr i)"
  by pat_completeness auto
termination
  by (relation "measure (\<lambda>(f, i, j). j - i)") auto

declare Search_loop.simps [simp del]

definition Search :: "nat \<Rightarrow> (nat \<Rightarrow> panic + bool) \<Rightarrow> panic + nat" where
  "Search n f = Search_loop f 0 n"

text \<open>
  \<^verbatim>\<open>rand.Intn(n)\<close>: panics when \<open>n \<le> 0\<close>, else returns a number in \<open>[0, n)\<close> and advances
  the source.
\<close>

definition Intn :: "(nat \<Rightarrow> nat) \<Rightarrow> go_int \<Rightarrow> panic + (go_int \<times> (nat \<Rightarrow> nat))" where
  "Intn src n =
     (if sint n \<le> 0 then Inl PanicIntn
      else Inr (of_nat (src 0 mod nat (sint n)), (\<lambda>k. src (Suc k))))"

text \<open>\<^verbatim>\<open>r.Prs[k].field = v\<close>: a write through the pointer stored in the map; nil when absent.\<close>

definition setProgress ::
  "(u64 \<times> Progress) list \<Rightarrow> u64 \<Rightarrow> (Progress \<Rightarrow> Progress) \<Rightarrow> panic + (u64 \<times> Progress) list" where
  "setProgress prs k f =
     (case map_of prs k of
        None \<Rightarrow> Inl PanicNilDeref
      | Some pr \<Rightarrow> Inr (AList.update k (f pr) prs))"

section \<open>Sending\<close>

definition send :: "Raft \<Rightarrow> Message \<Rightarrow> Raft" where
  "send r msg = r\<lparr>msgs := msgs r @ [msg]\<rparr>"

definition sendAppend :: "Raft \<Rightarrow> u64 \<Rightarrow> panic + (bool \<times> Raft)" where
  "sendAppend r to =
     (case map_of (Prs r) to of
        None \<Rightarrow> Inl PanicNilDeref
      | Some pr \<Rightarrow>
          (let prevLogIndex = Next pr - 1 in
           case RaftLog_Term (RaftLog r) prevLogIndex of
             Inl p \<Rightarrow> Inl p
           | Inr (prevLogTerm, Some err) \<Rightarrow>
               if err = ErrCompacted then Inr (False, r) else Inl (PanicError err)
           | Inr (prevLogTerm, None) \<Rightarrow>
               (case toSliceIndex (RaftLog r) (prevLogIndex + 1) of
                  Inl p \<Rightarrow> Inl p
                | Inr start \<Rightarrow>
                    Inr (True,
                      send r (Message0\<lparr>Msg_MsgType := MsgAppend, Msg_To := to,
                        Msg_From := id' r, Msg_Term := Term r, Msg_LogTerm := prevLogTerm,
                        Msg_Index := prevLogIndex,
                        Msg_Entries := drop start (entries (RaftLog r)),
                        Msg_Commit := committed (RaftLog r)\<rparr>)))))"

definition sendAppendResponse :: "Raft \<Rightarrow> u64 \<Rightarrow> u64 \<Rightarrow> u64 \<Rightarrow> bool \<Rightarrow> Raft" where
  "sendAppendResponse r to logTerm index reject =
     send r (Message0\<lparr>Msg_MsgType := MsgAppendResponse, Msg_To := to, Msg_From := id' r,
       Msg_Term := Term r, Msg_LogTerm := logTerm, Msg_Index := index, Msg_Reject := reject\<rparr>)"

definition sendHeartbeat :: "Raft \<Rightarrow> u64 \<Rightarrow> Raft" where
  "sendHeartbeat r to =
     send r (Message0\<lparr>Msg_MsgType := MsgHeartbeat, Msg_To := to, Msg_From := id' r,
       Msg_Term := Term r\<rparr>)"

definition sendHeartbeatResponse :: "Raft \<Rightarrow> u64 \<Rightarrow> bool \<Rightarrow> Raft" where
  "sendHeartbeatResponse r to reject =
     send r (Message0\<lparr>Msg_MsgType := MsgHeartbeatResponse, Msg_To := to, Msg_From := id' r,
       Msg_Term := Term r, Msg_Reject := reject\<rparr>)"

definition sendRequestVote :: "Raft \<Rightarrow> u64 \<Rightarrow> u64 \<Rightarrow> u64 \<Rightarrow> Raft" where
  "sendRequestVote r to index term =
     send r (Message0\<lparr>Msg_MsgType := MsgRequestVote, Msg_To := to, Msg_From := id' r,
       Msg_Term := Term r, Msg_LogTerm := term, Msg_Index := index\<rparr>)"

definition sendRequestVoteResponse :: "Raft \<Rightarrow> u64 \<Rightarrow> bool \<Rightarrow> Raft" where
  "sendRequestVoteResponse r to reject =
     send r (Message0\<lparr>Msg_MsgType := MsgRequestVoteResponse, Msg_To := to, Msg_From := id' r,
       Msg_Term := Term r, Msg_Reject := reject\<rparr>)"

text \<open>The two broadcasts: \<^verbatim>\<open>for peer := range r.Prs\<close>, over the keys in the list's order.\<close>

fun bcastHeartbeat_loop :: "u64 list \<Rightarrow> Raft \<Rightarrow> Raft" where
  "bcastHeartbeat_loop [] r = r"
| "bcastHeartbeat_loop (peer # ps) r =
     (if id' r \<noteq> peer then bcastHeartbeat_loop ps (sendHeartbeat r peer)
      else bcastHeartbeat_loop ps r)"

definition bcastHeartbeat :: "Raft \<Rightarrow> Raft" where
  "bcastHeartbeat r = bcastHeartbeat_loop (map fst (Prs r)) r"

fun bcastAppend_loop :: "u64 list \<Rightarrow> Raft \<Rightarrow> panic + Raft" where
  "bcastAppend_loop [] r = Inr r"
| "bcastAppend_loop (peer # ps) r =
     (if id' r \<noteq> peer then
        (case sendAppend r peer of
           Inl p \<Rightarrow> Inl p
         | Inr (_, r') \<Rightarrow> bcastAppend_loop ps r')
      else bcastAppend_loop ps r)"

definition bcastAppend :: "Raft \<Rightarrow> panic + Raft" where
  "bcastAppend r = bcastAppend_loop (map fst (Prs r)) r"

section \<open>Role transitions\<close>

definition resetRandomizedElectionTimeout :: "Raft \<Rightarrow> panic + Raft" where
  "resetRandomizedElectionTimeout r =
     (case Intn (rand r) (electionTimeout r) of
        Inl p \<Rightarrow> Inl p
      | Inr (n, src) \<Rightarrow>
          Inr (r\<lparr>randomizedElectionTimeout := electionTimeout r + n, rand := src\<rparr>))"

definition becomeFollower :: "Raft \<Rightarrow> u64 \<Rightarrow> u64 \<Rightarrow> panic + Raft" where
  "becomeFollower r term lead =
     resetRandomizedElectionTimeout
       (r\<lparr>State := StateFollower, Term := term, Lead := lead, Vote := None'\<rparr>)"

definition becomeCandidate :: "Raft \<Rightarrow> panic + Raft" where
  "becomeCandidate r =
     resetRandomizedElectionTimeout
       (r\<lparr>State := StateCandidate, Term := Term r + 1, Lead := None', Vote := id' r,
          votes := [(id' r, True)]\<rparr>)"

text \<open>
  \<^verbatim>\<open>becomeLeader\<close>: the loop over \<^verbatim>\<open>r.Prs\<close> writes \<open>Next\<close> of every peer and \<open>Match\<close> of the
  node itself only, then the no-op entry is appended and the appends are broadcast.
\<close>

definition becomeLeader :: "Raft \<Rightarrow> panic + Raft" where
  "becomeLeader r =
     (let r1 = r\<lparr>State := StateLeader, Lead := id' r, heartbeatElapsed := 0\<rparr>;
          lastIndex = LastIndex (RaftLog r1);
          r2 = r1\<lparr>Prs :=
                 map (\<lambda>(peer, pr).
                        if id' r1 = peer
                        then (peer, pr\<lparr>Next := lastIndex + 2, Match := lastIndex + 1\<rparr>)
                        else (peer, pr\<lparr>Next := lastIndex + 1\<rparr>))
                     (Prs r1)\<rparr>;
          r3 = r2\<lparr>RaftLog := (RaftLog r2)\<lparr>entries := entries (RaftLog r2) @
                 [\<lparr>Entry_Type = EntryNormal, Entry_Term = Term r2,
                   Entry_Index = lastIndex + 1, Entry_Data = []\<rparr>]\<rparr>\<rparr>
      in case bcastAppend r3 of
           Inl p \<Rightarrow> Inl p
         | Inr r4 \<Rightarrow>
             if length (Prs r4) = 1 then
               (case map_of (Prs r4) (id' r4) of
                  None \<Rightarrow> Inl PanicNilDeref
                | Some pr \<Rightarrow> Inr (r4\<lparr>RaftLog := (RaftLog r4)\<lparr>committed := Match pr\<rparr>\<rparr>))
             else Inr r4)"

section \<open>Elections\<close>

fun sendRequestVote_loop :: "u64 list \<Rightarrow> u64 \<Rightarrow> u64 \<Rightarrow> Raft \<Rightarrow> Raft" where
  "sendRequestVote_loop [] lastIndex lastLogTerm r = r"
| "sendRequestVote_loop (peer # ps) lastIndex lastLogTerm r =
     (if peer \<noteq> id' r
      then sendRequestVote_loop ps lastIndex lastLogTerm (sendRequestVote r peer lastIndex lastLogTerm)
      else sendRequestVote_loop ps lastIndex lastLogTerm r)"

definition doElection :: "Raft \<Rightarrow> panic + Raft" where
  "doElection r =
     (case becomeCandidate r of
        Inl p \<Rightarrow> Inl p
      | Inr r1 \<Rightarrow>
          (let r2 = r1\<lparr>heartbeatElapsed := 0\<rparr> in
           if length (Prs r2) = 1 then becomeLeader r2
           else
             (let lastIndex = LastIndex (RaftLog r2) in
              case RaftLog_Term (RaftLog r2) lastIndex of
                Inl p \<Rightarrow> Inl p
              | Inr (lastLogTerm, _) \<Rightarrow>
                  Inr (sendRequestVote_loop (map fst (Prs r2)) lastIndex lastLogTerm r2))))"

definition handleRequestVote :: "Raft \<Rightarrow> Message \<Rightarrow> panic + Raft" where
  "handleRequestVote r m =
     (if Msg_Term m < Term r then Inr (sendRequestVoteResponse r (Msg_From m) True)
      else if Vote r = None' \<or> Vote r = Msg_From m then
        (case isUpToDate (RaftLog r) (Msg_Index m) (Msg_LogTerm m) of
           Inl p \<Rightarrow> Inl p
         | Inr up \<Rightarrow>
             if up then
               Inr (sendRequestVoteResponse
                      (r\<lparr>Vote := Msg_From m, electionElapsed := 0\<rparr>) (Msg_From m) False)
             else Inr (sendRequestVoteResponse r (Msg_From m) True))
      else Inr (sendRequestVoteResponse r (Msg_From m) True))"

definition handleRequestVoteResponse :: "Raft \<Rightarrow> Message \<Rightarrow> panic + Raft" where
  "handleRequestVoteResponse r m =
     (let r1 = r\<lparr>votes := AList.update (Msg_From m) (\<not> Msg_Reject m) (votes r)\<rparr>;
          granted = length (filter snd (votes r1));
          quorum = length (Prs r1) div 2
      in if quorum < granted then becomeLeader r1
         else if quorum < length (votes r1) - granted then becomeFollower r1 (Term r1) None'
         else Inr r1)"

section \<open>Log replication\<close>

text \<open>
  The walk over \<^verbatim>\<open>m.Entries\<close> in \<^verbatim>\<open>handleAppendEntries\<close>: entries below \<open>first\<close> are
  skipped, an entry inside the log replaces its slot and cuts the tail when the terms
  differ, and the first entry past the log appends itself and all that follow.
\<close>

fun appendLoop :: "Entry list \<Rightarrow> RaftLog \<Rightarrow> panic + RaftLog" where
  "appendLoop [] l = Inr l"
| "appendLoop (ent # rest) l =
     (if Entry_Index ent < FirstIndex l then appendLoop rest l
      else if Entry_Index ent \<le> LastIndex l then
        (case RaftLog_Term l (Entry_Index ent) of
           Inl p \<Rightarrow> Inl p
         | Inr (logTerm, Some err) \<Rightarrow> Inl (PanicError err)
         | Inr (logTerm, None) \<Rightarrow>
             if logTerm \<noteq> Entry_Term ent then
               (case toSliceIndex l (Entry_Index ent) of
                  Inl p \<Rightarrow> Inl p
                | Inr idx \<Rightarrow>
                    if idx < length (entries l) then
                      appendLoop rest
                        (l\<lparr>entries := take (idx + 1) ((entries l)[idx := ent]),
                           stabled := min (stabled l) (Entry_Index ent - 1)\<rparr>)
                    else Inl PanicIndexOutOfRange)
             else appendLoop rest l)
      else Inr (l\<lparr>entries := entries l @ (ent # rest)\<rparr>))"

text \<open>
  The check of the previous entry: \<open>Some\<close> of the state with the rejection sent when the
  terms differ, \<open>None\<close> when the append goes on.
\<close>

definition checkPrev :: "Raft \<Rightarrow> Message \<Rightarrow> panic + Raft option" where
  "checkPrev r m =
     (if FirstIndex (RaftLog r) \<le> Msg_Index m then
        (case RaftLog_Term (RaftLog r) (Msg_Index m) of
           Inl p \<Rightarrow> Inl p
         | Inr (logTerm, Some err) \<Rightarrow> Inl (PanicError err)
         | Inr (logTerm, None) \<Rightarrow>
             if logTerm \<noteq> Msg_LogTerm m then
               (case toSliceIndex (RaftLog r) (Msg_Index m + 1) of
                  Inl p \<Rightarrow> Inl p
                | Inr n \<Rightarrow>
                    (case Search n
                            (\<lambda>i. if i < length (entries (RaftLog r))
                                 then Inr (Entry_Term (entries (RaftLog r) ! i) = logTerm)
                                 else Inl PanicIndexOutOfRange) of
                       Inl p \<Rightarrow> Inl p
                     | Inr si \<Rightarrow>
                         Inr (Some (sendAppendResponse r (Msg_From m) logTerm
                                      (toEntryIndex (RaftLog r) si) True))))
             else Inr None)
      else Inr None)"

definition handleAppendEntries :: "Raft \<Rightarrow> Message \<Rightarrow> panic + Raft" where
  "handleAppendEntries r m =
     (if Msg_Term m < Term r then Inr (sendAppendResponse r (Msg_From m) None' None' True)
      else
        (let r1 = r\<lparr>Lead := Msg_From m, electionElapsed := 0\<rparr>;
             lastIndex = LastIndex (RaftLog r1)
         in if lastIndex < Msg_Index m
            then Inr (sendAppendResponse r1 (Msg_From m) None' (lastIndex + 1) True)
            else
              (case checkPrev r1 m of
                 Inl p \<Rightarrow> Inl p
               | Inr (Some rejected) \<Rightarrow> Inr rejected
               | Inr None \<Rightarrow>
                   (case appendLoop (Msg_Entries m) (RaftLog r1) of
                      Inl p \<Rightarrow> Inl p
                    | Inr l2 \<Rightarrow>
                        (let l3 = (if committed l2 < Msg_Commit m
                                   then l2\<lparr>committed :=
                                          min (Msg_Commit m)
                                              (Msg_Index m + of_nat (length (Msg_Entries m)))\<rparr>
                                   else l2);
                             r3 = r1\<lparr>RaftLog := l3\<rparr>
                         in Inr (sendAppendResponse r3 (Msg_From m) None' (LastIndex l3) False))))))"

text \<open>
  Modelled from the spec: \<^verbatim>\<open>uint64Slice\<close> and its order are defined outside the sources;
  the spec says the match values are sorted ascending.
\<close>

definition leaderCommit :: "Raft \<Rightarrow> panic + Raft" where
  "leaderCommit r =
     (let match = sort (map (\<lambda>(peer, pr). Match pr) (Prs r)) in
      if length match = 0 then Inl PanicIndexOutOfRange
      else
        (let n = match ! ((length match - 1) div 2) in
         if committed (RaftLog r) < n then
           (case RaftLog_Term (RaftLog r) n of
              Inl p \<Rightarrow> Inl p
            | Inr (logTerm, Some err) \<Rightarrow> Inl (PanicError err)
            | Inr (logTerm, None) \<Rightarrow>
                if logTerm = Term r
                then bcastAppend (r\<lparr>RaftLog := (RaftLog r)\<lparr>committed := n\<rparr>\<rparr>)
                else Inr r)
         else Inr r))"

definition handleAppendEntriesResponse :: "Raft \<Rightarrow> Message \<Rightarrow> panic + Raft" where
  "handleAppendEntriesResponse r m =
     (if Msg_Term m < Term r then Inr r
      else if Msg_Reject m then
        (if Msg_Index m = None' then Inr r
         else
           (case (if Msg_LogTerm m \<noteq> None' then
                    (case Search (length (entries (RaftLog r)))
                            (\<lambda>i. if i < length (entries (RaftLog r))
                                 then Inr (Msg_LogTerm m < Entry_Term (entries (RaftLog r) ! i))
                                 else Inl PanicIndexOutOfRange) of
                       Inl p \<Rightarrow> Inl p
                     | Inr sliceIndex \<Rightarrow>
                         if sliceIndex > 0 \<and>
                            Entry_Term (entries (RaftLog r) ! (sliceIndex - 1)) = Msg_LogTerm m
                         then Inr (toEntryIndex (RaftLog r) sliceIndex)
                         else Inr (Msg_Index m))
                  else Inr (Msg_Index m)) of
              Inl p \<Rightarrow> Inl p
            | Inr rejectHint \<Rightarrow>
                (case setProgress (Prs r) (Msg_From m) (\<lambda>pr. pr\<lparr>Next := rejectHint\<rparr>) of
                   Inl p \<Rightarrow> Inl p
                 | Inr prs \<Rightarrow>
                     (case sendAppend (r\<lparr>Prs := prs\<rparr>) (Msg_From m) of
                        Inl p \<Rightarrow> Inl p
                      | Inr (_, r') \<Rightarrow> Inr r'))))
      else
        (case map_of (Prs r) (Msg_From m) of
           None \<Rightarrow> Inl PanicNilDeref
         | Some pr \<Rightarrow>
             if Match pr < Msg_Index m then
               leaderCommit
                 (r\<lparr>Prs := AList.update (Msg_From m)
                              (pr\<lparr>Match := Msg_Index m, Next := Msg_Index m + 1\<rparr>) (Prs r)\<rparr>)
             else Inr r))"

definition handleHeartbeat :: "Raft \<Rightarrow> Message \<Rightarrow> Raft" where
  "handleHeartbeat r m =
     (if Msg_Term m < Term r then sendHeartbeatResponse r (Msg_From m) True
      else sendHeartbeatResponse (r\<lparr>Lead := Msg_From m, electionElapsed := 0\<rparr>) (Msg_From m) False)"

text \<open>
  \<^verbatim>\<open>appendEntries\<close> (the proposal path): entry \<open>i\<close> of the proposal gets the leader's term
  and the index \<open>lastIndex + i + 1\<close>.
\<close>

definition appendEntries :: "Raft \<Rightarrow> Entry list \<Rightarrow> panic + Raft" where
  "appendEntries r ents =
     (let lastIndex = LastIndex (RaftLog r);
          stamped = map (\<lambda>(i, ent). ent\<lparr>Entry_Term := Term r,
                                        Entry_Index := lastIndex + of_nat i + 1\<rparr>)
                        (enumerate 0 ents);
          r1 = r\<lparr>RaftLog := (RaftLog r)\<lparr>entries := entries (RaftLog r) @ stamped\<rparr>\<rparr>
      in case setProgress (Prs r1) (id' r1) (\<lambda>pr. pr\<lparr>Match := LastIndex (RaftLog r1)\<rparr>) of
           Inl p \<Rightarrow> Inl p
         | Inr prs1 \<Rightarrow>
             (case setProgress prs1 (id' r1) (\<lambda>pr. pr\<lparr>Next := Match pr + 1\<rparr>) of
                Inl p \<Rightarrow> Inl p
              | Inr prs2 \<Rightarrow>
                  (case bcastAppend (r1\<lparr>Prs := prs2\<rparr>) of
                     Inl p \<Rightarrow> Inl p
                   | Inr r2 \<Rightarrow>
                       if length (Prs r2) = 1 then
                         (case map_of (Prs r2) (id' r2) of
                            None \<Rightarrow> Inl PanicNilDeref
                          | Some pr \<Rightarrow>
                              Inr (r2\<lparr>RaftLog := (RaftLog r2)\<lparr>committed := Match pr\<rparr>\<rparr>))
                       else Inr r2)))"

section \<open>Step and tick\<close>

text \<open>
  The three per-role dispatchers. Each returns Go's \<^verbatim>\<open>error\<close>, which is \<^verbatim>\<open>nil\<close> on every
  path; a message type without a case, or with an empty case, changes nothing.
\<close>

definition stepFollower :: "Raft \<Rightarrow> Message \<Rightarrow> panic + (error option \<times> Raft)" where
  "stepFollower r m =
     (case (case Msg_MsgType m of
              MsgHup \<Rightarrow> doElection r
            | MsgAppend \<Rightarrow> handleAppendEntries r m
            | MsgRequestVote \<Rightarrow> handleRequestVote r m
            | MsgSnapshot \<Rightarrow> Inr r
            | MsgHeartbeat \<Rightarrow> Inr (handleHeartbeat r m)
            | MsgTransferLeader \<Rightarrow> Inr r
            | MsgTimeoutNow \<Rightarrow> Inr r
            | _ \<Rightarrow> Inr r) of
        Inl p \<Rightarrow> Inl p
      | Inr r' \<Rightarrow> Inr (None, r'))"

definition stepCandidate :: "Raft \<Rightarrow> Message \<Rightarrow> panic + (error option \<times> Raft)" where
  "stepCandidate r m =
     (case (case Msg_MsgType m of
              MsgHup \<Rightarrow> doElection r
            | MsgAppend \<Rightarrow>
                (case (if Msg_Term m = Term r then becomeFollower r (Msg_Term m) (Msg_From m)
                       else Inr r) of
                   Inl p \<Rightarrow> Inl p
                 | Inr r1 \<Rightarrow> handleAppendEntries r1 m)
            | MsgRequestVote \<Rightarrow> handleRequestVote r m
            | MsgRequestVoteResponse \<Rightarrow> handleRequestVoteResponse r m
            | MsgSnapshot \<Rightarrow> Inr r
            | MsgHeartbeat \<Rightarrow>
                (case (if Msg_Term m = Term r then becomeFollower r (Msg_Term m) (Msg_From m)
                       else Inr r) of
                   Inl p \<Rightarrow> Inl p
                 | Inr r1 \<Rightarrow> Inr (handleHeartbeat r1 m))
            | MsgTransferLeader \<Rightarrow> Inr r
            | MsgTimeoutNow \<Rightarrow> Inr r
            | _ \<Rightarrow> Inr r) of
        Inl p \<Rightarrow> Inl p
      | Inr r' \<Rightarrow> Inr (None, r'))"

definition stepLeader :: "Raft \<Rightarrow> Message \<Rightarrow> panic + (error option \<times> Raft)" where
  "stepLeader r m =
     (case (case Msg_MsgType m of
              MsgBeat \<Rightarrow> Inr (bcastHeartbeat r)
            | MsgPropose \<Rightarrow> appendEntries r (Msg_Entries m)
            | MsgAppend \<Rightarrow> handleAppendEntries r m
            | MsgAppendResponse \<Rightarrow> handleAppendEntriesResponse r m
            | MsgRequestVote \<Rightarrow> handleRequestVote r m
            | MsgSnapshot \<Rightarrow> Inr r
            | MsgHeartbeat \<Rightarrow> Inr (handleHeartbeat r m)
            | MsgHeartbeatResponse \<Rightarrow>
                (if \<not> Msg_Reject m then
                   (case sendAppend r (Msg_From m) of
                      Inl p \<Rightarrow> Inl p
                    | Inr (_, r') \<Rightarrow> Inr r')
                 else Inr r)
            | MsgTransferLeader \<Rightarrow> Inr r
            | MsgTimeoutNow \<Rightarrow> Inr r
            | _ \<Rightarrow> Inr r) of
        Inl p \<Rightarrow> Inl p
      | Inr r' \<Rightarrow> Inr (None, r'))"

text \<open>
  \<^verbatim>\<open>Step\<close>: a node that is not in its own peer set ignores the message; a higher term
  makes it a follower first; the role's dispatcher runs, its error is dropped, and
  \<^verbatim>\<open>nil\<close> is returned.
\<close>

definition Step :: "Raft \<Rightarrow> Message \<Rightarrow> panic + (error option \<times> Raft)" where
  "Step r m =
     (if map_of (Prs r) (id' r) = None then Inr (None, r)
      else
        (case (if Term r < Msg_Term m then becomeFollower r (Msg_Term m) None' else Inr r) of
           Inl p \<Rightarrow> Inl p
         | Inr r1 \<Rightarrow>
             (case (case State r1 of
                      StateFollower \<Rightarrow> stepFollower r1 m
                    | StateCandidate \<Rightarrow> stepCandidate r1 m
                    | StateLeader \<Rightarrow> stepLeader r1 m) of
                Inl p \<Rightarrow> Inl p
              | Inr (_, r2) \<Rightarrow> Inr (None, r2))))"

definition tickElection :: "Raft \<Rightarrow> panic + Raft" where
  "tickElection r =
     (let r1 = r\<lparr>electionElapsed := electionElapsed r + 1\<rparr> in
      if sint (randomizedElectionTimeout r1) \<le> sint (electionElapsed r1) then
        (case Step (r1\<lparr>electionElapsed := 0\<rparr>) (Message0\<lparr>Msg_MsgType := MsgHup\<rparr>) of
           Inl p \<Rightarrow> Inl p
         | Inr (_, r2) \<Rightarrow> Inr r2)
      else Inr r1)"

definition tickHeartbeat :: "Raft \<Rightarrow> panic + Raft" where
  "tickHeartbeat r =
     (let r1 = r\<lparr>heartbeatElapsed := heartbeatElapsed r + 1\<rparr> in
      if sint (heartbeatTimeout r1) \<le> sint (heartbeatElapsed r1) then
        (case Step (r1\<lparr>heartbeatElapsed := 0\<rparr>) (Message0\<lparr>Msg_MsgType := MsgBeat\<rparr>) of
           Inl p \<Rightarrow> Inl p
         | Inr (_, r2) \<Rightarrow> Inr r2)
      else Inr r1)"

definition tick :: "Raft \<Rightarrow> panic + Raft" where
  "tick r =
     (case State r of
        StateFollower \<Rightarrow> tickElection r
      | StateCandidate \<Rightarrow> tickElection r
      | StateLeader \<Rightarrow> tickHeartbeat r)"

section \<open>Vote grants and frames\<close>

text \<open>
  A vote grant is a \<^verbatim>\<open>MsgRequestVoteResponse\<close> with \<open>reject = false\<close>. Two states are
  \<open>calm\<close> when the node's identity, term, vote and role agree and the outbound queue
  only grew, by messages that are no vote grants: what all handlers but the election
  ones do.
\<close>

definition isGrant :: "Message \<Rightarrow> bool" where
  "isGrant msg = (Msg_MsgType msg = MsgRequestVoteResponse \<and> \<not> Msg_Reject msg)"

definition calm :: "Raft \<Rightarrow> Raft \<Rightarrow> bool" where
  "calm r r' =
     (id' r' = id' r \<and> Term r' = Term r \<and> Vote r' = Vote r \<and> State r' = State r \<and>
      (\<exists>xs. msgs r' = msgs r @ xs \<and> (\<forall>g\<in>set xs. \<not> isGrant g)))"

section \<open>Runs of a node\<close>

text \<open>
  What the host does to a node: it steps a message into it or ticks it. A run applies
  a list of such calls and returns the states it went through, the first one included;
  a panic ends it. The outbound queue \<open>msgs\<close> is not drained along a run, so the
  messages a run has sent are those queued past the first state's.
\<close>

datatype Event = EvStep Message | EvTick

definition exec :: "Raft \<Rightarrow> Event \<Rightarrow> panic + Raft" where
  "exec r ev =
     (case ev of
        EvStep m \<Rightarrow> (case Step r m of Inl p \<Rightarrow> Inl p | Inr (_, r') \<Rightarrow> Inr r')
      | EvTick \<Rightarrow> tick r)"

fun run :: "Raft \<Rightarrow> Event list \<Rightarrow> panic + Raft list" where
  "run r [] = Inr [r]"
| "run r (ev # evs) =
     (case exec r ev of
        Inl p \<Rightarrow> Inl p
      | Inr r' \<Rightarrow> (case run r' evs of Inl p \<Rightarrow> Inl p | Inr tr \<Rightarrow> Inr (r # tr)))"





section \<open>Concrete logs and nodes\<close>

text \<open>
  The inputs at which the theorems below are instantiated. \<open>exStorage\<close> answers like an
  array of stored entries whose element 0 is a dummy at the compaction point: indices
  below the dummy are Compacted, indices past the array are Unavailable.
\<close>

definition mkEntry :: "u64 \<Rightarrow> u64 \<Rightarrow> Entry" where
  "mkEntry t i = \<lparr>Entry_Type = EntryNormal, Entry_Term = t, Entry_Index = i, Entry_Data = []\<rparr>"

definition exStorage :: "Entry list \<Rightarrow> Storage" where
  "exStorage ents =
     \<lparr>Storage_FirstIndex = Entry_Index (hd ents) + 1,
      Storage_LastIndex = Entry_Index (hd ents) + of_nat (length ents) - 1,
      Storage_Term = (\<lambda>i. if i < Entry_Index (hd ents) then (0, Some ErrCompacted)
                           else if length ents \<le> unat (i - Entry_Index (hd ents))
                                then (0, Some ErrUnavailable)
                                else (Entry_Term (ents ! unat (i - Entry_Index (hd ents))), None))\<rparr>"

definition mkLog :: "Storage \<Rightarrow> Entry list \<Rightarrow> u64 \<Rightarrow> u64 \<Rightarrow> RaftLog" where
  "mkLog st ents fi c =
     \<lparr>storage = st, committed = c, applied = 0, stabled = 0, entries = ents,
      pendingSnapshot = None, first = fi\<rparr>"

text \<open>A log holding the entries 1..3 of term 1 over a fresh storage.\<close>

definition log3 :: RaftLog where
  "log3 = mkLog (exStorage [mkEntry 0 0]) [mkEntry 1 1, mkEntry 1 2, mkEntry 1 3] 1 0"

text \<open>The same log with a pending snapshot at index 2, term 7.\<close>

definition log3snap :: RaftLog where
  "log3snap = log3\<lparr>pendingSnapshot := Some \<lparr>Metadata = Some \<lparr>Snap_Index = 2, Snap_Term = 7\<rparr>\<rparr>\<rparr>"

text \<open>An empty tail over a fresh storage, with a pending snapshot at index 5, term 2.\<close>

definition logEmptySnap :: RaftLog where
  "logEmptySnap =
     (mkLog (exStorage [mkEntry 0 0]) [] 1 0)
       \<lparr>pendingSnapshot := Some \<lparr>Metadata = Some \<lparr>Snap_Index = 5, Snap_Term = 2\<rparr>\<rparr>\<rparr>"

text \<open>The log 1..3 after its storage has compacted everything below index 3.\<close>

definition log3compacted :: RaftLog where
  "log3compacted = log3\<lparr>storage := exStorage [mkEntry 1 2, mkEntry 1 3]\<rparr>"

text \<open>
  Nodes: node 1 of the cluster \<open>{1, 2, 3}\<close>, three ticks into its election timeout, with
  a random source that always returns 0.
\<close>

definition mkRaft ::
  "u64 \<Rightarrow> u64 \<Rightarrow> u64 \<Rightarrow> StateType \<Rightarrow> RaftLog \<Rightarrow> (u64 \<times> Progress) list \<Rightarrow> Raft" where
  "mkRaft i t v st l prs =
     \<lparr>id' = i, Term = t, Vote = v, RaftLog = l, Prs = prs, State = st, votes = [],
      msgs = [], Lead = 0, heartbeatTimeout = 1, electionTimeout = 10,
      heartbeatElapsed = 0, electionElapsed = 3, leadTransferee = 0, PendingConfIndex = 0,
      randomizedElectionTimeout = 10, rand = (\<lambda>k. 0)\<rparr>"

definition peers3 :: "(u64 \<times> Progress) list" where
  "peers3 =
     [(1, \<lparr>Match = 0, Next = 1\<rparr>), (2, \<lparr>Match = 0, Next = 1\<rparr>), (3, \<lparr>Match = 0, Next = 1\<rparr>)]"

text \<open>A follower at term 1 holding the entries 1..3 of term 1.\<close>

definition nodeF :: Raft where
  "nodeF = mkRaft 1 1 0 StateFollower log3 peers3"

text \<open>A log with the terms 1, 2, 2 at the indices 1..3, and a follower at term 2 holding it.\<close>

definition logMixed :: RaftLog where
  "logMixed = mkLog (exStorage [mkEntry 0 0]) [mkEntry 1 1, mkEntry 2 2, mkEntry 2 3] 1 0"

definition nodeM :: Raft where
  "nodeM = mkRaft 1 2 0 StateFollower logMixed peers3"

text \<open>A \<^verbatim>\<open>MsgAppend\<close> to node 1: sender, term, prevIndex, prevTerm, entries, commit.\<close>

definition appendMsg :: "u64 \<Rightarrow> u64 \<Rightarrow> u64 \<Rightarrow> u64 \<Rightarrow> Entry list \<Rightarrow> u64 \<Rightarrow> Message" where
  "appendMsg from t p pt es c =
     Message0\<lparr>Msg_MsgType := MsgAppend, Msg_To := 1, Msg_From := from, Msg_Term := t,
       Msg_LogTerm := pt, Msg_Index := p, Msg_Entries := es, Msg_Commit := c\<rparr>"

text \<open>A \<^verbatim>\<open>MsgRequestVote\<close> to node 1: sender, term, last index, last term.\<close>

definition voteMsg :: "u64 \<Rightarrow> u64 \<Rightarrow> u64 \<Rightarrow> u64 \<Rightarrow> Message" where
  "voteMsg from t i lt =
     Message0\<lparr>Msg_MsgType := MsgRequestVote, Msg_To := 1, Msg_From := from, Msg_Term := t,
       Msg_LogTerm := lt, Msg_Index := i\<rparr>"

text \<open>
  Leaders: node 1 leading term 1 with its no-op at index 1, and node 1 leading term 2
  over an entry of term 1 and its own no-op at index 2. Nobody else has acknowledged
  anything yet.
\<close>

definition logL1 :: RaftLog where
  "logL1 = mkLog (exStorage [mkEntry 0 0]) [mkEntry 1 1] 1 0"

definition nodeL1 :: Raft where
  "nodeL1 = mkRaft 1 1 1 StateLeader logL1
     [(1, \<lparr>Match = 1, Next = 2\<rparr>), (2, \<lparr>Match = 0, Next = 1\<rparr>), (3, \<lparr>Match = 0, Next = 1\<rparr>)]"

definition logL2 :: RaftLog where
  "logL2 = mkLog (exStorage [mkEntry 0 0]) [mkEntry 1 1, mkEntry 2 2] 1 0"

definition nodeL2 :: Raft where
  "nodeL2 = mkRaft 1 2 1 StateLeader logL2
     [(1, \<lparr>Match = 2, Next = 3\<rparr>), (2, \<lparr>Match = 0, Next = 1\<rparr>), (3, \<lparr>Match = 0, Next = 1\<rparr>)]"

text \<open>
  A leader of term 1 whose storage has compacted everything below index 3: its tail
  holds the entries 3 and 4, peer 2 has acknowledged index 2 and peer 3 nothing.
\<close>

definition logL3 :: RaftLog where
  "logL3 = (mkLog (exStorage [mkEntry 1 2, mkEntry 1 3, mkEntry 1 4])
              [mkEntry 1 3, mkEntry 1 4] 3 2)\<lparr>applied := 2, stabled := 4\<rparr>"

definition nodeL3 :: Raft where
  "nodeL3 = mkRaft 1 1 1 StateLeader logL3
     [(1, \<lparr>Match = 4, Next = 5\<rparr>), (2, \<lparr>Match = 2, Next = 3\<rparr>), (3, \<lparr>Match = 0, Next = 1\<rparr>)]"

definition respMsg :: "u64 \<Rightarrow> u64 \<Rightarrow> u64 \<Rightarrow> Message" where
  "respMsg from t i =
     Message0\<lparr>Msg_MsgType := MsgAppendResponse, Msg_To := 1, Msg_From := from, Msg_Term := t,
       Msg_Index := i\<rparr>"

text \<open>A proposal as the host hands it to \<^verbatim>\<open>Step\<close> (a local message, term 0), and a candidate.\<close>

definition proposeMsg :: "Entry list \<Rightarrow> Message" where
  "proposeMsg es = Message0\<lparr>Msg_MsgType := MsgPropose, Msg_To := 1, Msg_From := 1, Msg_Entries := es\<rparr>"

definition nodeC :: Raft where
  "nodeC = (mkRaft 1 2 1 StateCandidate log3 peers3)\<lparr>votes := [(1, True)]\<rparr>"

text \<open>The largest \<^verbatim>\<open>uint64\<close>, a follower whose term is that number, and the local \<^verbatim>\<open>MsgHup\<close>.\<close>

definition MaxUint64 :: u64 where
  "MaxUint64 = 18446744073709551615"

definition nodeMax :: Raft where
  "nodeMax = mkRaft 1 MaxUint64 0 StateFollower log3 peers3"

definition hupMsg :: Message where
  "hupMsg = Message0\<lparr>Msg_MsgType := MsgHup\<rparr>"

text \<open>The follower \<open>nodeF\<close> with the entries 1 and 2 committed and applied.\<close>

definition nodeF2 :: Raft where
  "nodeF2 = mkRaft 1 1 0 StateFollower (log3\<lparr>committed := 2, applied := 2\<rparr>) peers3"




text \<open>A follower at term 2 whose log is still empty.\<close>

definition nodeE :: Raft where
  "nodeE = mkRaft 1 2 0 StateFollower (mkLog (exStorage [mkEntry 0 0]) [] 1 0) peers3"

section \<open>The log: resolving a term, compaction\<close>

lemma RaftLog_Term_memory:
  "entries l \<noteq> [] \<Longrightarrow> first l \<le> i \<Longrightarrow> unat (i - first l) < length (entries l) \<Longrightarrow>
   RaftLog_Term l i = Inr (Entry_Term (entries l ! unat (i - first l)), None)"
  by (simp add: RaftLog_Term_def)

lemma RaftLog_Term_storage:
  "entries l = [] \<or> i < first l \<Longrightarrow>
   RaftLog_Term l i =
     (case Storage_Term (storage l) i of (term, err) \<Rightarrow>
        if err = Some ErrUnavailable \<and> \<not> IsEmptySnap (pendingSnapshot l) then
          (if i = snapIndex (pendingSnapshot l) then Inr (snapTerm (pendingSnapshot l), None)
           else if i < snapIndex (pendingSnapshot l) then Inr (term, Some ErrCompacted)
           else Inr (term, err))
        else Inr (term, err))"
  by (auto simp: RaftLog_Term_def)

text \<open>
  C3 (as the code has it). \<open>RaftLog.Term i\<close> resolves in the order: the in-memory tail
  (when the tail is not empty and \<open>i \<ge> first\<close>; for \<open>i\<close> inside the tail the entry's term,
  whatever the pending snapshot says), then Storage, and the pending snapshot only when
  Storage answered Unavailable (its term when \<open>i\<close> is its index, Compacted when \<open>i\<close> is
  below it). With no pending snapshot an index below \<open>first\<close>, or any index over an empty
  tail, gets exactly Storage's answer, so Compacted and Unavailable are returned when
  Storage reports them, and such a lookup never aborts.
\<close>

theorem RaftLog_Term_resolution:
  "(entries l \<noteq> [] \<and> first l \<le> i \<and> unat (i - first l) < length (entries l) \<longrightarrow>
      RaftLog_Term l i = Inr (Entry_Term (entries l ! unat (i - first l)), None)) \<and>
   ((entries l = [] \<or> i < first l) \<and> Storage_Term (storage l) i = (t, e) \<longrightarrow>
      (e \<noteq> Some ErrUnavailable \<or> IsEmptySnap (pendingSnapshot l) \<longrightarrow>
         RaftLog_Term l i = Inr (t, e)) \<and>
      (e = Some ErrUnavailable \<and> \<not> IsEmptySnap (pendingSnapshot l) \<and>
       i = snapIndex (pendingSnapshot l) \<longrightarrow>
         RaftLog_Term l i = Inr (snapTerm (pendingSnapshot l), None)) \<and>
      (e = Some ErrUnavailable \<and> \<not> IsEmptySnap (pendingSnapshot l) \<and>
       i < snapIndex (pendingSnapshot l) \<longrightarrow>
         RaftLog_Term l i = Inr (t, Some ErrCompacted)) \<and>
      (\<exists>res. RaftLog_Term l i = Inr res))"
proof (intro conjI impI)
  assume "entries l \<noteq> [] \<and> first l \<le> i \<and> unat (i - first l) < length (entries l)"
  then show "RaftLog_Term l i = Inr (Entry_Term (entries l ! unat (i - first l)), None)"
    by (simp add: RaftLog_Term_memory)
next
  assume a: "(entries l = [] \<or> i < first l) \<and> Storage_Term (storage l) i = (t, e)"
     and b: "e \<noteq> Some ErrUnavailable \<or> IsEmptySnap (pendingSnapshot l)"
  from a have "entries l = [] \<or> i < first l" by simp
  from RaftLog_Term_storage [OF this] a b show "RaftLog_Term l i = Inr (t, e)"
    by auto
next
  assume a: "(entries l = [] \<or> i < first l) \<and> Storage_Term (storage l) i = (t, e)"
     and b: "e = Some ErrUnavailable \<and> \<not> IsEmptySnap (pendingSnapshot l) \<and>
             i = snapIndex (pendingSnapshot l)"
  from a have "entries l = [] \<or> i < first l" by simp
  from RaftLog_Term_storage [OF this] a b
  show "RaftLog_Term l i = Inr (snapTerm (pendingSnapshot l), None)"
    by simp
next
  assume a: "(entries l = [] \<or> i < first l) \<and> Storage_Term (storage l) i = (t, e)"
     and b: "e = Some ErrUnavailable \<and> \<not> IsEmptySnap (pendingSnapshot l) \<and>
             i < snapIndex (pendingSnapshot l)"
  from a have "entries l = [] \<or> i < first l" by simp
  from RaftLog_Term_storage [OF this] a b
  show "RaftLog_Term l i = Inr (t, Some ErrCompacted)"
    by auto
next
  assume a: "(entries l = [] \<or> i < first l) \<and> Storage_Term (storage l) i = (t, e)"
  from a have "entries l = [] \<or> i < first l" by simp
  from RaftLog_Term_storage [OF this] a
  show "\<exists>res. RaftLog_Term l i = Inr res"
    by (simp split: if_splits)
qed

text \<open>The theorem at four lookups: inside the tail, below \<open>first\<close>, and at and below a pending snapshot.\<close>

theorem RaftLog_Term_resolution_witness:
  "RaftLog_Term log3snap 2 = Inr (1, None) \<and>
   RaftLog_Term log3 0 = Inr (0, None) \<and>
   RaftLog_Term logEmptySnap 5 = Inr (2, None) \<and>
   RaftLog_Term logEmptySnap 3 = Inr (0, Some ErrCompacted)"
proof -
  have m: "entries log3snap \<noteq> [] \<and> first log3snap \<le> 2 \<and>
           unat (2 - first log3snap) < length (entries log3snap)"
    by code_simp
  have mv: "Entry_Term (entries log3snap ! unat (2 - first log3snap)) = 1"
    by code_simp
  have s0: "(entries log3 = [] \<or> 0 < first log3) \<and> Storage_Term (storage log3) 0 = (0, None)"
    by code_simp
  have s0': "None \<noteq> Some ErrUnavailable \<or> IsEmptySnap (pendingSnapshot log3)"
    by simp
  have s5: "(entries logEmptySnap = [] \<or> 5 < first logEmptySnap) \<and>
            Storage_Term (storage logEmptySnap) 5 = (0, Some ErrUnavailable)"
    by code_simp
  have s5': "\<not> IsEmptySnap (pendingSnapshot logEmptySnap) \<and>
             5 = snapIndex (pendingSnapshot logEmptySnap) \<and>
             snapTerm (pendingSnapshot logEmptySnap) = 2"
    by code_simp
  have s3: "(entries logEmptySnap = [] \<or> 3 < first logEmptySnap) \<and>
            Storage_Term (storage logEmptySnap) 3 = (0, Some ErrUnavailable)"
    by code_simp
  have s3': "3 < snapIndex (pendingSnapshot logEmptySnap)"
    by code_simp
  show ?thesis
    using RaftLog_Term_resolution [of log3snap 2 0 None] m mv
      RaftLog_Term_resolution [of log3 0 0 None] s0 s0'
      RaftLog_Term_resolution [of logEmptySnap 5 0 "Some ErrUnavailable"] s5 s5'
      RaftLog_Term_resolution [of logEmptySnap 3 0 "Some ErrUnavailable"] s3 s3'
    by simp
qed

text \<open>
  C3 as the spec states it fails three times over: the index 4 is past the last index
  3 of \<open>log3\<close> and the lookup panics instead of returning Unavailable; index 2 of
  \<open>log3snap\<close> matches the pending snapshot (term 7) and the tail's term 1 is returned;
  index 0 is below \<open>first\<close> with no snapshot and Storage's answer is returned, not
  Compacted.
\<close>

theorem RaftLog_Term_counterexample:
  "LastIndex log3 < 4 \<and> RaftLog_Term log3 4 = Inl PanicIndexOutOfRange \<and>
   \<not> IsEmptySnap (pendingSnapshot log3snap) \<and> snapIndex (pendingSnapshot log3snap) = 2 \<and>
   snapTerm (pendingSnapshot log3snap) = 7 \<and> RaftLog_Term log3snap 2 = Inr (1, None) \<and>
   0 < first log3 \<and> IsEmptySnap (pendingSnapshot log3) \<and> RaftLog_Term log3 0 = Inr (0, None)"
  by code_simp

text \<open>
  C5 (as the code has it). When Storage's FirstIndex has advanced past \<open>first\<close> (and, for a
  tail that is not empty, lies within it), \<open>maybeCompact\<close> returns, drops the in-memory
  prefix below the new FirstIndex and raises \<open>first\<close> to it. The cursors \<open>applied\<close>,
  \<open>committed\<close> and \<open>stabled\<close> keep their values: \<open>applied\<close> is at least \<open>first - 1\<close>
  afterwards exactly when it already was at least the new FirstIndex minus one.
\<close>

theorem maybeCompact_advanced:
  assumes adv: "first l < Storage_FirstIndex (storage l)"
      and rng: "entries l = [] \<or>
                (0 \<le> sint (Storage_FirstIndex (storage l) - first l) \<and>
                 unat (Storage_FirstIndex (storage l) - first l) \<le> length (entries l))"
  shows "\<exists>l'. maybeCompact l = Inr l' \<and>
              first l' = Storage_FirstIndex (storage l) \<and>
              entries l' = drop (unat (Storage_FirstIndex (storage l) - first l)) (entries l) \<and>
              applied l' = applied l \<and> committed l' = committed l \<and> stabled l' = stabled l \<and>
              (first l' - 1 \<le> applied l' \<longleftrightarrow> Storage_FirstIndex (storage l) - 1 \<le> applied l)"
proof (cases "entries l = []")
  case True
  with adv show ?thesis
    by (simp add: maybeCompact_def Let_def)
next
  case False
  with rng have "0 \<le> sint (Storage_FirstIndex (storage l) - first l)"
    and "unat (Storage_FirstIndex (storage l) - first l) \<le> length (entries l)"
    by simp_all
  with adv False show ?thesis
    by (simp add: maybeCompact_def toSliceIndex_def Let_def)
qed

theorem maybeCompact_advanced_witness:
  "first log3compacted < Storage_FirstIndex (storage log3compacted) \<and>
   (\<exists>l'. maybeCompact log3compacted = Inr l' \<and> first l' = 3 \<and>
         entries l' = [mkEntry 1 3] \<and> applied l' = 0)"
proof -
  have a: "first log3compacted < Storage_FirstIndex (storage log3compacted)"
    by code_simp
  have b: "entries log3compacted = [] \<or>
           (0 \<le> sint (Storage_FirstIndex (storage log3compacted) - first log3compacted) \<and>
            unat (Storage_FirstIndex (storage log3compacted) - first log3compacted)
              \<le> length (entries log3compacted))"
    by code_simp
  have c: "Storage_FirstIndex (storage log3compacted) = 3"
    and d: "drop (unat (3 - first log3compacted)) (entries log3compacted) = [mkEntry 1 3]"
    and e: "applied log3compacted = 0"
    by code_simp+
  from maybeCompact_advanced [OF a b] a show ?thesis
    unfolding c d e by blast
qed

text \<open>
  C5 as the spec states it fails: after compacting \<open>log3compacted\<close> to index 3 the
  cursor \<open>applied\<close> is still 0, below \<open>first - 1 = 2\<close>.
\<close>

theorem maybeCompact_applied_counterexample:
  "first log3compacted < Storage_FirstIndex (storage log3compacted) \<and>
   maybeCompact log3compacted = Inr (log3compacted\<lparr>entries := [mkEntry 1 3], first := 3\<rparr>) \<and>
   applied (log3compacted\<lparr>entries := [mkEntry 1 3], first := 3\<rparr>)
     < first (log3compacted\<lparr>entries := [mkEntry 1 3], first := 3\<rparr>) - 1"
  by (simp add: maybeCompact_def toSliceIndex_def log3compacted_def log3_def mkLog_def exStorage_def mkEntry_def)

section \<open>Handling an append\<close>

text \<open>Unfolding sets for evaluating the concrete nodes.\<close>

lemmas ex_defs =
  nodeF_def nodeF2_def nodeM_def nodeE_def nodeL3_def logL3_def nodeC_def nodeL1_def nodeL2_def nodeMax_def mkRaft_def
  peers3_def appendMsg_def voteMsg_def respMsg_def proposeMsg_def hupMsg_def Message0_def
  MaxUint64_def log3_def logMixed_def logL1_def logL2_def mkLog_def exStorage_def
  mkEntry_def

lemmas run_defs =
  handleAppendEntries_def checkPrev_def LastIndex_def FirstIndex_def IsEmptySnap_def
  RaftLog_Term_def toSliceIndex_def toEntryIndex_def sendAppendResponse_def send_def
  None'_def Let_def

lemma msgs_send [simp]: "msgs (send r msg) = msgs r @ [msg]"
  by (simp add: send_def)

lemma RaftLog_send [simp]: "RaftLog (send r msg) = RaftLog r"
  by (simp add: send_def)

lemma checkPrev_rejected:
  "checkPrev r m = Inr (Some r') \<Longrightarrow>
   RaftLog r' = RaftLog r \<and> Msg_Reject (last (msgs r'))"
  by (auto simp: checkPrev_def sendAppendResponse_def
           split: if_splits sum.splits option.splits prod.splits)

lemma appendLoop_frame:
  "appendLoop es l = Inr l' \<Longrightarrow>
   committed l' = committed l \<and> first l' = first l \<and> applied l' = applied l \<and>
   storage l' = storage l \<and> pendingSnapshot l' = pendingSnapshot l"
proof (induction es l rule: appendLoop.induct)
  case (1 l)
  then show ?case by simp
next
  case (2 ent rest l)
  show ?case
  proof (cases "Entry_Index ent < FirstIndex l")
    case True
    with 2 show ?thesis by simp
  next
    case nlow: False
    show ?thesis
    proof (cases "Entry_Index ent \<le> LastIndex l")
      case False
      with nlow "2.prems" show ?thesis by auto
    next
      case True
      with nlow "2.prems" obtain logTerm where
        t: "RaftLog_Term l (Entry_Index ent) = Inr (logTerm, None)"
        by (auto split: sum.splits option.splits)
      show ?thesis
      proof (cases "logTerm \<noteq> Entry_Term ent")
        case False
        with nlow True t 2 show ?thesis by simp
      next
        case neq: True
        with nlow True t "2.prems" obtain idx where
          i: "toSliceIndex l (Entry_Index ent) = Inr idx" "idx < length (entries l)"
          by (auto split: sum.splits if_splits)
        with nlow True t neq "2.prems"
        have "appendLoop rest (l\<lparr>entries := take (idx + 1) ((entries l)[idx := ent]),
                  stabled := min (stabled l) (Entry_Index ent - 1)\<rparr>) = Inr l'"
          by simp
        with "2.IH"(2) nlow True t neq i
        show ?thesis by simp
      qed
    qed
  qed
qed

text \<open>
  C6. When \<open>handleAppendEntries\<close> accepts a \<^verbatim>\<open>MsgAppend\<close> with prevIndex \<open>P\<close>, entries \<open>E\<close> and
  leader commit \<open>C\<close> (it returns and the response it queued last has \<open>reject = false\<close>),
  and \<open>C > committed\<close>, then \<open>committed\<close> becomes \<open>min C (P + |E|)\<close> (in \<^verbatim>\<open>uint64\<close>
  arithmetic), and otherwise it keeps its value; with no entries, \<open>committed\<close> is never
  raised above \<open>P\<close>.
\<close>

theorem handleAppendEntries_commit:
  assumes run: "handleAppendEntries r m = Inr r'"
      and acc: "\<not> Msg_Reject (last (msgs r'))"
  shows "committed (RaftLog r') =
           (if committed (RaftLog r) < Msg_Commit m
            then min (Msg_Commit m) (Msg_Index m + of_nat (length (Msg_Entries m)))
            else committed (RaftLog r)) \<and>
         (Msg_Entries m = [] \<and> committed (RaftLog r) < committed (RaftLog r') \<longrightarrow>
            committed (RaftLog r') \<le> Msg_Index m)"
proof -
  let ?r1 = "r\<lparr>Lead := Msg_From m, electionElapsed := 0\<rparr>"
  from run acc have t: "\<not> Msg_Term m < Term r"
    by (auto simp: handleAppendEntries_def sendAppendResponse_def)
  from run acc t have i: "\<not> LastIndex (RaftLog r) < Msg_Index m"
    by (auto simp: handleAppendEntries_def sendAppendResponse_def Let_def)
  from run acc t i have c: "checkPrev ?r1 m = Inr None"
    by (auto simp: handleAppendEntries_def Let_def
             split: sum.splits option.splits dest: checkPrev_rejected)
  from run t i c obtain l2 where
    l2: "appendLoop (Msg_Entries m) (RaftLog r) = Inr l2"
    by (auto simp: handleAppendEntries_def Let_def split: sum.splits)
  from appendLoop_frame [OF l2] have f: "committed l2 = committed (RaftLog r)"
    by simp
  from run t i c l2 f
  have eq: "committed (RaftLog r') =
           (if committed (RaftLog r) < Msg_Commit m
            then min (Msg_Commit m) (Msg_Index m + of_nat (length (Msg_Entries m)))
            else committed (RaftLog r))"
    by (auto simp: handleAppendEntries_def Let_def sendAppendResponse_def)
  then show ?thesis
    by (auto split: if_splits)
qed

text \<open>
  The theorem at an accepted append without entries: prevIndex 3, leader commit 5, on a
  follower with \<open>committed = 0\<close>; \<open>committed\<close> becomes 3.
\<close>

theorem handleAppendEntries_commit_witness:
  "\<exists>r'. handleAppendEntries nodeF (appendMsg 2 1 3 1 [] 5) = Inr r' \<and>
         \<not> Msg_Reject (last (msgs r')) \<and> committed (RaftLog nodeF) = 0 \<and>
         committed (RaftLog r') = 3"
proof -
  define r' where "r' = nodeF\<lparr>Lead := 2, electionElapsed := 0, RaftLog := log3\<lparr>committed := 3\<rparr>,
      msgs := [Message0\<lparr>Msg_MsgType := MsgAppendResponse, Msg_To := 2, Msg_From := 1,
         Msg_Term := 1, Msg_Index := 3\<rparr>]\<rparr>"
  have run: "handleAppendEntries nodeF (appendMsg 2 1 3 1 [] 5) = Inr r'"
    unfolding r'_def by (simp add: ex_defs run_defs)
  have acc: "\<not> Msg_Reject (last (msgs r'))"
    by (simp add: r'_def Message0_def)
  have c0: "committed (RaftLog nodeF) = 0"
    by (simp add: ex_defs)
  have m: "Msg_Commit (appendMsg 2 1 3 1 [] 5) = 5" "Msg_Index (appendMsg 2 1 3 1 [] 5) = 3"
    "Msg_Entries (appendMsg 2 1 3 1 [] 5) = []"
    by (simp_all add: ex_defs)
  from handleAppendEntries_commit [OF run acc] have "committed (RaftLog r') = 3"
    by (simp add: c0 m)
  with run acc c0 show ?thesis by blast
qed

subsection \<open>Binary search and the conflict hint\<close>












section \<open>Step: a message of a higher term\<close>

lemma resetRandomizedElectionTimeout_eq:
  "resetRandomizedElectionTimeout r =
     (if sint (electionTimeout r) \<le> 0 then Inl PanicIntn
      else Inr (r\<lparr>randomizedElectionTimeout :=
                    electionTimeout r + of_nat (rand r 0 mod nat (sint (electionTimeout r))),
                  rand := (\<lambda>k. rand r (Suc k))\<rparr>))"
  by (simp add: resetRandomizedElectionTimeout_def Intn_def)

lemma elapsed_send [simp]: "electionElapsed (send r msg) = electionElapsed r"
  by (simp add: send_def)

lemma elapsed_sendAppend:
  "sendAppend r to = Inr (b, r') \<Longrightarrow> electionElapsed r' = electionElapsed r"
  by (auto simp: sendAppend_def Let_def split: option.splits sum.splits prod.splits if_splits)

lemma elapsed_bcastAppend_loop:
  "bcastAppend_loop ps r = Inr r' \<Longrightarrow> electionElapsed r' = electionElapsed r"
proof (induction ps arbitrary: r)
  case Nil
  then show ?case by simp
next
  case (Cons p ps)
  show ?case
  proof (cases "id' r \<noteq> p")
    case False
    with Cons show ?thesis by simp
  next
    case True
    with Cons.prems obtain b r1 where s: "sendAppend r p = Inr (b, r1)"
      and l: "bcastAppend_loop ps r1 = Inr r'"
      by (auto split: sum.splits prod.splits)
    from Cons.IH [OF l] elapsed_sendAppend [OF s] show ?thesis by simp
  qed
qed

lemma elapsed_becomeLeader:
  "becomeLeader r = Inr r' \<Longrightarrow> electionElapsed r' = electionElapsed r"
  by (auto simp: becomeLeader_def bcastAppend_def Let_def
           dest!: elapsed_bcastAppend_loop split: sum.splits option.splits if_splits)

lemma elapsed_sendRequestVote_loop [simp]:
  "electionElapsed (sendRequestVote_loop ps i t r) = electionElapsed r"
  by (induction ps arbitrary: r) (simp_all add: sendRequestVote_def)

lemma elapsed_becomeCandidate:
  "becomeCandidate r = Inr r' \<Longrightarrow> electionElapsed r' = electionElapsed r"
  by (auto simp: becomeCandidate_def resetRandomizedElectionTimeout_eq split: if_splits)

lemma elapsed_doElection:
  assumes "doElection r = Inr r'"
  shows "electionElapsed r' = electionElapsed r"
proof -
  from assms obtain r1 where c: "becomeCandidate r = Inr r1"
    by (auto simp: doElection_def split: sum.splits)
  note e1 = elapsed_becomeCandidate [OF c]
  show ?thesis
  proof (cases "length (Prs r1) = 1")
    case True
    with assms c have "becomeLeader (r1\<lparr>heartbeatElapsed := 0\<rparr>) = Inr r'"
      by (simp add: doElection_def Let_def)
    from elapsed_becomeLeader [OF this] e1 show ?thesis by simp
  next
    case False
    with assms c e1 show ?thesis
      by (auto simp: doElection_def Let_def split: sum.splits prod.splits)
  qed
qed

lemma elapsed_checkPrev:
  "checkPrev r m = Inr (Some r') \<Longrightarrow> electionElapsed r' = electionElapsed r"
  by (auto simp: checkPrev_def sendAppendResponse_def
           split: if_splits sum.splits option.splits prod.splits)

lemma elapsed_handleAppendEntries:
  assumes "handleAppendEntries r m = Inr r'" and "\<not> Msg_Term m < Term r"
  shows "electionElapsed r' = 0"
  using assms
  by (auto simp: handleAppendEntries_def Let_def sendAppendResponse_def
           dest!: elapsed_checkPrev split: if_splits sum.splits option.splits)

lemma elapsed_handleRequestVote:
  assumes "handleRequestVote r m = Inr r'" and "\<not> Msg_Term m < Term r" and "Vote r = None'"
  shows "electionElapsed r' =
           (if isUpToDate (RaftLog r) (Msg_Index m) (Msg_LogTerm m) = Inr True then 0
            else electionElapsed r)"
  using assms
  by (auto simp: handleRequestVote_def sendRequestVoteResponse_def split: if_splits sum.splits)

lemma granted_handleRequestVote:
  assumes "handleRequestVote r m = Inr r'" and "\<not> Msg_Term m < Term r" and "Vote r = None'"
      and "isUpToDate (RaftLog r) (Msg_Index m) (Msg_LogTerm m) = Inr True"
  shows "Vote r' = Msg_From m \<and> isGrant (last (msgs r')) \<and> Msg_To (last (msgs r')) = Msg_From m"
  using assms
  by (auto simp: handleRequestVote_def sendRequestVoteResponse_def send_def isGrant_def
                 Message0_def
           split: if_splits)

lemma elapsed_handleHeartbeat:
  "\<not> Msg_Term m < Term r \<Longrightarrow> electionElapsed (handleHeartbeat r m) = 0"
  by (simp add: handleHeartbeat_def sendHeartbeatResponse_def)

lemma Step_higher_elapsed:
  assumes self: "map_of (Prs r) (id' r) \<noteq> None"
      and higher: "Term r < Msg_Term m"
      and s: "Step r m = Inr (e, r')"
  shows "electionElapsed r' =
           (if Msg_MsgType m = MsgAppend \<or> Msg_MsgType m = MsgHeartbeat \<or>
               Msg_MsgType m = MsgRequestVote \<and>
               isUpToDate (RaftLog r) (Msg_Index m) (Msg_LogTerm m) = Inr True
            then 0 else electionElapsed r) \<and>
         (Msg_MsgType m = MsgRequestVote \<and>
          isUpToDate (RaftLog r) (Msg_Index m) (Msg_LogTerm m) = Inr True \<longrightarrow>
            Vote r' = Msg_From m \<and> isGrant (last (msgs r')) \<and>
            Msg_To (last (msgs r')) = Msg_From m)"
proof -
  from self higher s obtain r1 where b: "becomeFollower r (Msg_Term m) None' = Inr r1"
    by (auto simp: Step_def split: sum.splits)
  then have f: "State r1 = StateFollower" "Term r1 = Msg_Term m"
    "Vote r1 = None'" "RaftLog r1 = RaftLog r"
    and ee: "electionElapsed r1 = electionElapsed r"
    by (auto simp: becomeFollower_def resetRandomizedElectionTimeout_eq split: if_splits)
  from self higher s b f(1) obtain e1 where sf: "stepFollower r1 m = Inr (e1, r')"
    by (auto simp: Step_def split: sum.splits prod.splits)
  have nl: "\<not> Msg_Term m < Term r1" by (simp add: f)
  show ?thesis
  proof (cases "Msg_MsgType m")
    case MsgHup
    with sf have "doElection r1 = Inr r'"
      by (auto simp: stepFollower_def split: sum.splits)
    from elapsed_doElection [OF this] ee MsgHup show ?thesis by simp
  next
    case MsgAppend
    with sf have "handleAppendEntries r1 m = Inr r'"
      by (auto simp: stepFollower_def split: sum.splits)
    from elapsed_handleAppendEntries [OF this nl] MsgAppend show ?thesis by simp
  next
    case MsgRequestVote
    with sf have "handleRequestVote r1 m = Inr r'"
      by (auto simp: stepFollower_def split: sum.splits)
    from elapsed_handleRequestVote [OF this nl f(3)]
         granted_handleRequestVote [OF this nl f(3)] ee f(4) MsgRequestVote
    show ?thesis by simp
  next
    case MsgHeartbeat
    with sf have "r' = handleHeartbeat r1 m"
      by (auto simp: stepFollower_def split: sum.splits)
    with elapsed_handleHeartbeat [OF nl] MsgHeartbeat show ?thesis by simp
  qed (use sf ee in \<open>auto simp: stepFollower_def split: sum.splits\<close>)
qed

text \<open>
  C7 (as the code has it). A node that is not in its own peer set ignores every message.
  For every role of a node that is, a message whose term is above the node's own makes
  the node a Follower at that term with no known leader and no vote, and a new
  randomized election timeout is drawn, before the message is handled by the follower's
  dispatcher. (With an election timeout that is not positive the draw panics.) The count
  of elapsed election ticks is not written by this transition: when the step returns,
  the count is zero if the message is a \<^verbatim>\<open>MsgAppend\<close> or a \<^verbatim>\<open>MsgHeartbeat\<close>, accepted or
  rejected, or a \<^verbatim>\<open>MsgRequestVote\<close> from a log that is up to date, which is granted;
  otherwise it keeps its value.
\<close>

theorem Step_higher_term:
  assumes higher: "Term r < Msg_Term m"
  shows "(map_of (Prs r) (id' r) = None \<longrightarrow> Step r m = Inr (None, r)) \<and>
         (map_of (Prs r) (id' r) \<noteq> None \<longrightarrow>
            (0 < sint (electionTimeout r) \<longrightarrow>
               becomeFollower r (Msg_Term m) None' =
                 Inr (r\<lparr>State := StateFollower, Term := Msg_Term m, Lead := 0, Vote := 0,
                        randomizedElectionTimeout :=
                          electionTimeout r + of_nat (rand r 0 mod nat (sint (electionTimeout r))),
                        rand := (\<lambda>k. rand r (Suc k))\<rparr>) \<and>
               Step r m =
                 (case stepFollower
                         (r\<lparr>State := StateFollower, Term := Msg_Term m, Lead := 0, Vote := 0,
                            randomizedElectionTimeout :=
                              electionTimeout r + of_nat (rand r 0 mod nat (sint (electionTimeout r))),
                            rand := (\<lambda>k. rand r (Suc k))\<rparr>) m of
                    Inl p \<Rightarrow> Inl p
                  | Inr (e, r2) \<Rightarrow> Inr (None, r2))) \<and>
            (sint (electionTimeout r) \<le> 0 \<longrightarrow> Step r m = Inl PanicIntn) \<and>
            (\<forall>e r'. Step r m = Inr (e, r') \<longrightarrow>
               electionElapsed r' =
                 (if Msg_MsgType m = MsgAppend \<or> Msg_MsgType m = MsgHeartbeat \<or>
                     Msg_MsgType m = MsgRequestVote \<and>
                     isUpToDate (RaftLog r) (Msg_Index m) (Msg_LogTerm m) = Inr True
                  then 0 else electionElapsed r) \<and>
               (Msg_MsgType m = MsgRequestVote \<and>
                isUpToDate (RaftLog r) (Msg_Index m) (Msg_LogTerm m) = Inr True \<longrightarrow>
                  Vote r' = Msg_From m \<and> isGrant (last (msgs r')) \<and>
                  Msg_To (last (msgs r')) = Msg_From m)))"
proof (intro conjI impI allI)
  assume "map_of (Prs r) (id' r) = None"
  then show "Step r m = Inr (None, r)"
    by (simp add: Step_def)
next
  assume self: "map_of (Prs r) (id' r) \<noteq> None" and pos: "0 < sint (electionTimeout r)"
  from pos show bf: "becomeFollower r (Msg_Term m) None' =
              Inr (r\<lparr>State := StateFollower, Term := Msg_Term m, Lead := 0, Vote := 0,
                     randomizedElectionTimeout :=
                       electionTimeout r + of_nat (rand r 0 mod nat (sint (electionTimeout r))),
                     rand := (\<lambda>k. rand r (Suc k))\<rparr>)"
    by (simp add: becomeFollower_def resetRandomizedElectionTimeout_eq None'_def)
  from self higher show "Step r m =
              (case stepFollower
                      (r\<lparr>State := StateFollower, Term := Msg_Term m, Lead := 0, Vote := 0,
                         randomizedElectionTimeout :=
                           electionTimeout r + of_nat (rand r 0 mod nat (sint (electionTimeout r))),
                         rand := (\<lambda>k. rand r (Suc k))\<rparr>) m of
                 Inl p \<Rightarrow> Inl p
               | Inr (e, r2) \<Rightarrow> Inr (None, r2))"
    by (auto simp: Step_def bf split: sum.splits prod.splits)
next
  assume "map_of (Prs r) (id' r) \<noteq> None" "sint (electionTimeout r) \<le> 0"
  with higher show "Step r m = Inl PanicIntn"
    by (auto simp: Step_def becomeFollower_def resetRandomizedElectionTimeout_eq)
next
  fix e r'
  assume "map_of (Prs r) (id' r) \<noteq> None" "Step r m = Inr (e, r')"
  from Step_higher_elapsed [OF this(1) higher this(2)]
  show "electionElapsed r' =
                 (if Msg_MsgType m = MsgAppend \<or> Msg_MsgType m = MsgHeartbeat \<or>
                     Msg_MsgType m = MsgRequestVote \<and>
                     isUpToDate (RaftLog r) (Msg_Index m) (Msg_LogTerm m) = Inr True
                  then 0 else electionElapsed r)"
    by (rule conjunct1)
next
  fix e r'
  assume "map_of (Prs r) (id' r) \<noteq> None" "Step r m = Inr (e, r')"
     and "Msg_MsgType m = MsgRequestVote \<and>
          isUpToDate (RaftLog r) (Msg_Index m) (Msg_LogTerm m) = Inr True"
  with Step_higher_elapsed [OF this(1) higher this(2)]
  have g: "Vote r' = Msg_From m \<and> isGrant (last (msgs r')) \<and>
           Msg_To (last (msgs r')) = Msg_From m"
    by blast
  from g show "Vote r' = Msg_From m" by (rule conjunct1)
  from g show "isGrant (last (msgs r'))" by (rule conjunct2 [THEN conjunct1])
  from g show "Msg_To (last (msgs r')) = Msg_From m" by (rule conjunct2 [THEN conjunct2])
qed

text \<open>
  The theorem at the follower \<open>nodeF\<close> (term 1, three ticks elapsed): a vote request of
  term 5 from a log that is behind is refused and the count stays 3; an append of term 5
  whose previous index 7 is past the log is rejected and the count is 0; a vote request
  of term 5 from a log that is up to date is granted and the count is 0.
\<close>

lemmas step_defs =
  Step_def stepFollower_def becomeFollower_def resetRandomizedElectionTimeout_eq
  handleRequestVote_def isUpToDate_def sendRequestVoteResponse_def

theorem Step_higher_term_witness:
  "becomeFollower nodeF 5 None' =
     Inr (nodeF\<lparr>State := StateFollower, Term := 5, Lead := 0, Vote := 0,
            randomizedElectionTimeout := 10, rand := (\<lambda>k. 0)\<rparr>) \<and>
   Step nodeF (voteMsg 2 5 0 0) =
     (case stepFollower (nodeF\<lparr>State := StateFollower, Term := 5, Lead := 0, Vote := 0,
                           randomizedElectionTimeout := 10, rand := (\<lambda>k. 0)\<rparr>)
             (voteMsg 2 5 0 0) of
        Inl p \<Rightarrow> Inl p
      | Inr (e, r2) \<Rightarrow> Inr (None, r2)) \<and>
   (\<exists>r'. Step nodeF (voteMsg 2 5 0 0) = Inr (None, r') \<and> Msg_Reject (last (msgs r')) \<and>
          electionElapsed r' = 3) \<and>
   (\<exists>r'. Step nodeF (appendMsg 2 5 7 1 [] 0) = Inr (None, r') \<and> Msg_Reject (last (msgs r')) \<and>
          electionElapsed r' = 0) \<and>
   (\<exists>r'. Step nodeF (voteMsg 2 5 3 1) = Inr (None, r') \<and> Vote r' = 2 \<and>
          isGrant (last (msgs r')) \<and> electionElapsed r' = 0)"
proof -
  have a: "map_of (Prs nodeF) (id' nodeF) \<noteq> None"
    by (simp add: ex_defs)
  have b: "Term nodeF < Msg_Term (voteMsg 2 5 0 0)"
          "Term nodeF < Msg_Term (appendMsg 2 5 7 1 [] 0)"
          "Term nodeF < Msg_Term (voteMsg 2 5 3 1)"
    by (simp_all add: ex_defs)
  have c: "0 < sint (electionTimeout nodeF)"
    by (simp add: ex_defs)
  have v: "Msg_Term (voteMsg 2 5 0 0) = 5" "electionTimeout nodeF = 10" "rand nodeF = (\<lambda>k. 0)"
    "electionElapsed nodeF = 3" "Msg_MsgType (voteMsg 2 5 0 0) = MsgRequestVote"
    "Msg_MsgType (appendMsg 2 5 7 1 [] 0) = MsgAppend"
    "isUpToDate (RaftLog nodeF) (Msg_Index (voteMsg 2 5 0 0)) (Msg_LogTerm (voteMsg 2 5 0 0))
       = Inr False"
    "Msg_MsgType (voteMsg 2 5 3 1) = MsgRequestVote" "Msg_From (voteMsg 2 5 3 1) = 2"
    "isUpToDate (RaftLog nodeF) (Msg_Index (voteMsg 2 5 3 1)) (Msg_LogTerm (voteMsg 2 5 3 1))
       = Inr True"
    by (simp_all add: ex_defs isUpToDate_def LastIndex_def IsEmptySnap_def RaftLog_Term_def)
  note T1 = Step_higher_term [OF b(1), THEN conjunct2, rule_format, OF a]
  note T2 = Step_higher_term [OF b(2), THEN conjunct2, rule_format, OF a]
  note T3 = Step_higher_term [OF b(3), THEN conjunct2, rule_format, OF a]
  from T1 [THEN conjunct1] c have p1: "becomeFollower nodeF 5 None' =
     Inr (nodeF\<lparr>State := StateFollower, Term := 5, Lead := 0, Vote := 0,
            randomizedElectionTimeout := 10, rand := (\<lambda>k. 0)\<rparr>) \<and>
   Step nodeF (voteMsg 2 5 0 0) =
     (case stepFollower (nodeF\<lparr>State := StateFollower, Term := 5, Lead := 0, Vote := 0,
                           randomizedElectionTimeout := 10, rand := (\<lambda>k. 0)\<rparr>)
             (voteMsg 2 5 0 0) of
        Inl p \<Rightarrow> Inl p
      | Inr (e, r2) \<Rightarrow> Inr (None, r2))"
    by (simp add: v)
  have "\<exists>r'. Step nodeF (voteMsg 2 5 0 0) = Inr (None, r') \<and> Msg_Reject (last (msgs r'))"
    by (simp add: ex_defs step_defs run_defs)
  then obtain r1 where r1: "Step nodeF (voteMsg 2 5 0 0) = Inr (None, r1)"
    "Msg_Reject (last (msgs r1))"
    by blast
  from T1 [THEN conjunct2, THEN conjunct2, rule_format, OF r1(1)]
  have "electionElapsed r1 = 3" by (simp add: v)
  with r1 have p2: "\<exists>r'. Step nodeF (voteMsg 2 5 0 0) = Inr (None, r') \<and>
      Msg_Reject (last (msgs r')) \<and> electionElapsed r' = 3"
    by blast
  have "\<exists>r'. Step nodeF (appendMsg 2 5 7 1 [] 0) = Inr (None, r') \<and> Msg_Reject (last (msgs r'))"
    by (simp add: ex_defs step_defs run_defs)
  then obtain r2 where r2: "Step nodeF (appendMsg 2 5 7 1 [] 0) = Inr (None, r2)"
    "Msg_Reject (last (msgs r2))"
    by blast
  from T2 [THEN conjunct2, THEN conjunct2, rule_format, OF r2(1)]
  have "electionElapsed r2 = 0" by (simp add: v)
  with r2 have p3: "\<exists>r'. Step nodeF (appendMsg 2 5 7 1 [] 0) = Inr (None, r') \<and>
      Msg_Reject (last (msgs r')) \<and> electionElapsed r' = 0"
    by blast
  have "\<exists>r'. Step nodeF (voteMsg 2 5 3 1) = Inr (None, r')"
    by (simp add: ex_defs step_defs run_defs)
  then obtain r3 where r3: "Step nodeF (voteMsg 2 5 3 1) = Inr (None, r3)"
    by blast
  from T3 [THEN conjunct2, THEN conjunct2, rule_format, OF r3]
  have "Vote r3 = 2 \<and> isGrant (last (msgs r3)) \<and> electionElapsed r3 = 0"
    by (simp add: v)
  with r3 have p4: "\<exists>r'. Step nodeF (voteMsg 2 5 3 1) = Inr (None, r') \<and> Vote r' = 2 \<and>
      isGrant (last (msgs r')) \<and> electionElapsed r' = 0"
    by blast
  from p1 p2 p3 p4 show ?thesis
    by blast
qed

text \<open>
  C7 as the spec states it fails: \<open>nodeF\<close> is three ticks into its election timeout;
  the vote request of term 5 (from a log that is behind) makes it a follower of term 5
  and is rejected, and the elapsed count is still 3.
\<close>

theorem Step_higher_term_counterexample:
  "Term nodeF < Msg_Term (voteMsg 2 5 0 0) \<and> electionElapsed nodeF = 3 \<and>
   Step nodeF (voteMsg 2 5 0 0) =
     Inr (None, nodeF\<lparr>State := StateFollower, Term := 5, Lead := 0, Vote := 0,
                   randomizedElectionTimeout := 10, rand := (\<lambda>k. 0), electionElapsed := 3,
                   msgs := [Message0\<lparr>Msg_MsgType := MsgRequestVoteResponse, Msg_To := 2,
                              Msg_From := 1, Msg_Term := 5, Msg_Reject := True\<rparr>]\<rparr>)"
  by (simp add: ex_defs step_defs run_defs)

section \<open>Commit advance on the leader\<close>

lemma sendAppend_cases:
  assumes "sendAppend r to = Inr (b, r')"
  shows "\<exists>pr t. map_of (Prs r) to = Some pr \<and>
           (if b then
              RaftLog_Term (RaftLog r) (Next pr - 1) = Inr (t, None) \<and>
              (\<exists>msg. r' = r\<lparr>msgs := msgs r @ [msg]\<rparr> \<and> Msg_MsgType msg = MsgAppend \<and>
                 Msg_To msg = to \<and> Msg_From msg = id' r \<and> Msg_Term msg = Term r \<and>
                 Msg_LogTerm msg = t \<and> Msg_Index msg = Next pr - 1 \<and>
                 Msg_Commit msg = committed (RaftLog r) \<and> \<not> Msg_Reject msg)
            else r' = r \<and> RaftLog_Term (RaftLog r) (Next pr - 1) = Inr (t, Some ErrCompacted))"
  using assms
  by (auto simp: sendAppend_def send_def Let_def Message0_def
           split: option.splits sum.splits prod.splits if_splits)

lemma bcastAppend_loop_result:
  "bcastAppend_loop ps r = Inr r' \<Longrightarrow>
   \<exists>xs. r' = r\<lparr>msgs := msgs r @ xs\<rparr> \<and>
     (\<forall>msg\<in>set xs. Msg_MsgType msg = MsgAppend \<and> Msg_To msg \<in> set ps \<and>
        Msg_To msg \<noteq> id' r \<and> Msg_From msg = id' r \<and> Msg_Term msg = Term r \<and>
        Msg_Commit msg = committed (RaftLog r) \<and> \<not> Msg_Reject msg) \<and>
     (\<forall>p\<in>set ps. p \<noteq> id' r \<longrightarrow>
        (\<exists>msg\<in>set xs. Msg_To msg = p) \<or>
        (\<exists>pr t. map_of (Prs r) p = Some pr \<and>
           RaftLog_Term (RaftLog r) (Next pr - 1) = Inr (t, Some ErrCompacted)))"
proof (induction ps arbitrary: r)
  case Nil
  then show ?case by simp
next
  case (Cons peer ps)
  show ?case
  proof (cases "id' r = peer")
    case True
    with Cons.prems have "bcastAppend_loop ps r = Inr r'" by simp
    from Cons.IH [OF this] True show ?thesis by auto
  next
    case False
    with Cons.prems obtain b r1 where
      s: "sendAppend r peer = Inr (b, r1)" and l: "bcastAppend_loop ps r1 = Inr r'"
      by (auto split: sum.splits prod.splits)
    from sendAppend_cases [OF s] obtain ys where
      r1: "r1 = r\<lparr>msgs := msgs r @ ys\<rparr>"
      and ys: "\<forall>msg\<in>set ys. Msg_MsgType msg = MsgAppend \<and> Msg_To msg = peer \<and>
        Msg_From msg = id' r \<and> Msg_Term msg = Term r \<and>
        Msg_Commit msg = committed (RaftLog r) \<and> \<not> Msg_Reject msg"
      and cov: "(\<exists>msg\<in>set ys. Msg_To msg = peer) \<or>
        (\<exists>pr t. map_of (Prs r) peer = Some pr \<and>
           RaftLog_Term (RaftLog r) (Next pr - 1) = Inr (t, Some ErrCompacted))"
    proof (cases b)
      case True
      with sendAppend_cases [OF s] obtain msg where
        "r1 = r\<lparr>msgs := msgs r @ [msg]\<rparr>" "Msg_MsgType msg = MsgAppend"
        "Msg_To msg = peer" "Msg_From msg = id' r" "Msg_Term msg = Term r"
        "Msg_Commit msg = committed (RaftLog r)" "\<not> Msg_Reject msg"
        by auto
      then show ?thesis by (intro that [of "[msg]"]) auto
    next
      case False
      with sendAppend_cases [OF s] show ?thesis
        by (intro that [of "[]"]) auto
    qed
    from Cons.IH [OF l] obtain xs where
      r': "r' = r1\<lparr>msgs := msgs r1 @ xs\<rparr>"
      and xs: "\<forall>msg\<in>set xs. Msg_MsgType msg = MsgAppend \<and> Msg_To msg \<in> set ps \<and>
        Msg_To msg \<noteq> id' r1 \<and> Msg_From msg = id' r1 \<and> Msg_Term msg = Term r1 \<and>
        Msg_Commit msg = committed (RaftLog r1) \<and> \<not> Msg_Reject msg"
      and cv: "\<forall>p\<in>set ps. p \<noteq> id' r1 \<longrightarrow>
        (\<exists>msg\<in>set xs. Msg_To msg = p) \<or>
        (\<exists>pr t. map_of (Prs r1) p = Some pr \<and>
           RaftLog_Term (RaftLog r1) (Next pr - 1) = Inr (t, Some ErrCompacted))"
      by blast
    have f: "id' r1 = id' r" "Term r1 = Term r" "RaftLog r1 = RaftLog r" "Prs r1 = Prs r"
      by (simp_all add: r1)
    have 1: "r' = r\<lparr>msgs := msgs r @ (ys @ xs)\<rparr>"
      by (simp add: r' r1)
    have 2: "\<forall>msg\<in>set (ys @ xs). Msg_MsgType msg = MsgAppend \<and> Msg_To msg \<in> set (peer # ps) \<and>
        Msg_To msg \<noteq> id' r \<and> Msg_From msg = id' r \<and> Msg_Term msg = Term r \<and>
        Msg_Commit msg = committed (RaftLog r) \<and> \<not> Msg_Reject msg"
      using ys xs False unfolding f by auto
    have 3: "\<forall>p\<in>set (peer # ps). p \<noteq> id' r \<longrightarrow>
        (\<exists>msg\<in>set (ys @ xs). Msg_To msg = p) \<or>
        (\<exists>pr t. map_of (Prs r) p = Some pr \<and>
           RaftLog_Term (RaftLog r) (Next pr - 1) = Inr (t, Some ErrCompacted))"
      using cov cv unfolding f by auto
    from 1 2 3 show ?thesis by blast
  qed
qed

lemma bcastAppend_result:
  "bcastAppend r = Inr r' \<Longrightarrow>
   \<exists>xs. r' = r\<lparr>msgs := msgs r @ xs\<rparr> \<and>
     (\<forall>msg\<in>set xs. Msg_MsgType msg = MsgAppend \<and> Msg_To msg \<in> fst ` set (Prs r) \<and>
        Msg_To msg \<noteq> id' r \<and> Msg_From msg = id' r \<and> Msg_Term msg = Term r \<and>
        Msg_Commit msg = committed (RaftLog r) \<and> \<not> Msg_Reject msg) \<and>
     (\<forall>p\<in>fst ` set (Prs r). p \<noteq> id' r \<longrightarrow>
        (\<exists>msg\<in>set xs. Msg_To msg = p) \<or>
        (\<exists>pr t. map_of (Prs r) p = Some pr \<and>
           RaftLog_Term (RaftLog r) (Next pr - 1) = Inr (t, Some ErrCompacted)))"
  using bcastAppend_loop_result [of "map fst (Prs r)" r r']
  by (simp add: bcastAppend_def)

lemma sendAppend_returns:
  assumes "map_of (Prs r) p = Some pr"
      and "RaftLog_Term (RaftLog r) (Next pr - 1) = Inr (t, e)"
      and "e = None \<and> 0 \<le> sint (Next pr - first (RaftLog r)) \<or> e = Some ErrCompacted"
  shows "\<exists>b ys. sendAppend r p = Inr (b, r\<lparr>msgs := msgs r @ ys\<rparr>)"
proof (cases e)
  case None
  with assms have "\<exists>msg. sendAppend r p = Inr (True, r\<lparr>msgs := msgs r @ [msg]\<rparr>)"
    by (auto simp: sendAppend_def toSliceIndex_def send_def)
  then show ?thesis by blast
next
  case (Some err)
  with assms have "sendAppend r p = Inr (False, r\<lparr>msgs := msgs r @ []\<rparr>)"
    by (simp add: sendAppend_def)
  then show ?thesis by blast
qed

lemma bcastAppend_loop_returns:
  "\<forall>p\<in>set ps. p \<noteq> id' r \<longrightarrow>
     (\<exists>pr t e. map_of (Prs r) p = Some pr \<and>
        RaftLog_Term (RaftLog r) (Next pr - 1) = Inr (t, e) \<and>
        (e = None \<and> 0 \<le> sint (Next pr - first (RaftLog r)) \<or> e = Some ErrCompacted)) \<Longrightarrow>
   \<exists>r'. bcastAppend_loop ps r = Inr r'"
proof (induction ps arbitrary: r)
  case Nil
  then show ?case by simp
next
  case (Cons peer ps)
  show ?case
  proof (cases "id' r = peer")
    case True
    with Cons.prems have "\<exists>r'. bcastAppend_loop ps r = Inr r'"
      by (intro Cons.IH) simp
    with True show ?thesis by simp
  next
    case False
    with Cons.prems obtain pr t e where
      "map_of (Prs r) peer = Some pr" "RaftLog_Term (RaftLog r) (Next pr - 1) = Inr (t, e)"
      "e = None \<and> 0 \<le> sint (Next pr - first (RaftLog r)) \<or> e = Some ErrCompacted"
      by auto
    from sendAppend_returns [OF this] obtain b ys where
      s: "sendAppend r peer = Inr (b, r\<lparr>msgs := msgs r @ ys\<rparr>)"
      by blast
    from Cons.prems have "\<exists>r'. bcastAppend_loop ps (r\<lparr>msgs := msgs r @ ys\<rparr>) = Inr r'"
      by (intro Cons.IH) simp
    with False s show ?thesis by simp
  qed
qed

lemma bcastAppend_returns:
  "\<forall>p\<in>fst ` set (Prs r). p \<noteq> id' r \<longrightarrow>
     (\<exists>pr t e. map_of (Prs r) p = Some pr \<and>
        RaftLog_Term (RaftLog r) (Next pr - 1) = Inr (t, e) \<and>
        (e = None \<and> 0 \<le> sint (Next pr - first (RaftLog r)) \<or> e = Some ErrCompacted)) \<Longrightarrow>
   \<exists>r'. bcastAppend r = Inr r'"
  using bcastAppend_loop_returns [of "map fst (Prs r)" r]
  by (simp add: bcastAppend_def)

lemma RaftLog_Term_committed [simp]:
  "RaftLog_Term (l\<lparr>committed := c\<rparr>) i = RaftLog_Term l i"
  by (simp add: RaftLog_Term_def split: prod.splits)

lemma LastIndex_committed [simp]:
  "LastIndex (l\<lparr>committed := c\<rparr>) = LastIndex l"
  by (simp add: LastIndex_def)

lemma leaderCommit_eq:
  assumes "Prs r \<noteq> []"
      and "N = sort (map (\<lambda>(peer, p). Match p) (Prs r)) ! ((length (Prs r) - 1) div 2)"
  shows "leaderCommit r =
     (if committed (RaftLog r) < N then
        (case RaftLog_Term (RaftLog r) N of
           Inl p \<Rightarrow> Inl p
         | Inr (logTerm, Some err) \<Rightarrow> Inl (PanicError err)
         | Inr (logTerm, None) \<Rightarrow>
             if logTerm = Term r
             then bcastAppend (r\<lparr>RaftLog := (RaftLog r)\<lparr>committed := N\<rparr>\<rparr>)
             else Inr r)
      else Inr r)"
proof -
  from assms(1) have "length (sort (map (\<lambda>(peer, p). Match p) (Prs r))) \<noteq> 0"
    by simp
  then have "sort (map (\<lambda>(peer, p). Match p) (Prs r)) \<noteq> []"
    by (simp only: length_0_conv not_False_eq_True)
  then show ?thesis
    using assms(2)
    by (simp add: leaderCommit_def Let_def split: sum.splits prod.splits option.splits)
qed

lemma update_nonempty: "map_of al k = Some v \<Longrightarrow> AList.update k w al \<noteq> []"
  by (cases al) auto

lemma handleAppendEntriesResponse_commit:
  assumes fresh: "\<not> Msg_Term m < Term r" and acc: "\<not> Msg_Reject m"
      and pr: "map_of (Prs r) (Msg_From m) = Some pr" and raise: "Match pr < Msg_Index m"
      and prs': "prs' = AList.update (Msg_From m)
                          (pr\<lparr>Match := Msg_Index m, Next := Msg_Index m + 1\<rparr>) (Prs r)"
      and N: "N = sort (map (\<lambda>(peer, p). Match p) prs') ! ((length prs' - 1) div 2)"
  shows "(committed (RaftLog r) < N \<and> RaftLog_Term (RaftLog r) N = Inr (Term r, None) \<longrightarrow>
            handleAppendEntriesResponse r m =
              bcastAppend (r\<lparr>Prs := prs', RaftLog := (RaftLog r)\<lparr>committed := N\<rparr>\<rparr>) \<and>
            (\<forall>r'. handleAppendEntriesResponse r m = Inr r' \<longrightarrow>
               committed (RaftLog r') = N \<and> Prs r' = prs' \<and>
               (\<exists>xs. msgs r' = msgs r @ xs \<and>
                  (\<forall>msg\<in>set xs. Msg_MsgType msg = MsgAppend \<and> Msg_To msg \<in> fst ` set prs' \<and>
                     Msg_To msg \<noteq> id' r \<and> Msg_From msg = id' r \<and> Msg_Term msg = Term r \<and>
                     Msg_Commit msg = N) \<and>
                  (\<forall>p\<in>fst ` set prs'. p \<noteq> id' r \<longrightarrow>
                     (\<exists>msg\<in>set xs. Msg_To msg = p) \<or>
                     (\<exists>q t. map_of prs' p = Some q \<and>
                        RaftLog_Term (RaftLog r) (Next q - 1) = Inr (t, Some ErrCompacted))))) \<and>
            ((\<forall>p\<in>fst ` set prs'. p \<noteq> id' r \<longrightarrow>
                (\<exists>q t. map_of prs' p = Some q \<and>
                   RaftLog_Term (RaftLog r) (Next q - 1) = Inr (t, None) \<and>
                   0 \<le> sint (Next q - first (RaftLog r)))) \<longrightarrow>
             (\<exists>r'. handleAppendEntriesResponse r m = Inr r'))) \<and>
         (\<not> committed (RaftLog r) < N \<or>
          (\<exists>t. RaftLog_Term (RaftLog r) N = Inr (t, None) \<and> t \<noteq> Term r) \<longrightarrow>
            handleAppendEntriesResponse r m = Inr (r\<lparr>Prs := prs'\<rparr>))"
proof -
  let ?r1 = "r\<lparr>Prs := prs'\<rparr>"
  let ?r2 = "r\<lparr>Prs := prs', RaftLog := (RaftLog r)\<lparr>committed := N\<rparr>\<rparr>"
  from pr have ne: "Prs ?r1 \<noteq> []"
    by (simp add: prs' update_nonempty)
  have h: "handleAppendEntriesResponse r m = leaderCommit ?r1"
    using fresh acc pr raise by (simp add: handleAppendEntriesResponse_def prs')
  have lc: "leaderCommit ?r1 =
     (if committed (RaftLog r) < N then
        (case RaftLog_Term (RaftLog r) N of
           Inl p \<Rightarrow> Inl p
         | Inr (logTerm, Some err) \<Rightarrow> Inl (PanicError err)
         | Inr (logTerm, None) \<Rightarrow>
             if logTerm = Term r then bcastAppend ?r2 else Inr ?r1)
      else Inr ?r1)"
    using leaderCommit_eq [OF ne, of N] N
    by (simp split: sum.splits prod.splits option.splits)
  show ?thesis
  proof (intro conjI impI allI)
    assume c: "committed (RaftLog r) < N \<and> RaftLog_Term (RaftLog r) N = Inr (Term r, None)"
    then show e: "handleAppendEntriesResponse r m = bcastAppend ?r2"
      by (simp add: h lc)
    {
      fix r' assume "handleAppendEntriesResponse r m = Inr r'"
      with e have b: "bcastAppend ?r2 = Inr r'" by simp
      from bcastAppend_result [OF b] obtain xs where
        x: "r' = ?r2\<lparr>msgs := msgs ?r2 @ xs\<rparr>"
        "\<forall>msg\<in>set xs. Msg_MsgType msg = MsgAppend \<and> Msg_To msg \<in> fst ` set (Prs ?r2) \<and>
           Msg_To msg \<noteq> id' ?r2 \<and> Msg_From msg = id' ?r2 \<and> Msg_Term msg = Term ?r2 \<and>
           Msg_Commit msg = committed (RaftLog ?r2) \<and> \<not> Msg_Reject msg"
        "\<forall>p\<in>fst ` set (Prs ?r2). p \<noteq> id' ?r2 \<longrightarrow>
           (\<exists>msg\<in>set xs. Msg_To msg = p) \<or>
           (\<exists>pr t. map_of (Prs ?r2) p = Some pr \<and>
              RaftLog_Term (RaftLog ?r2) (Next pr - 1) = Inr (t, Some ErrCompacted))"
        by blast
      from x(1) show "committed (RaftLog r') = N" by simp
      from x(1) show "Prs r' = prs'" by simp
      from x(1) have m: "msgs r' = msgs r @ xs" by simp
      from x(2) have a: "\<forall>msg\<in>set xs. Msg_MsgType msg = MsgAppend \<and> Msg_To msg \<in> fst ` set prs' \<and>
                     Msg_To msg \<noteq> id' r \<and> Msg_From msg = id' r \<and> Msg_Term msg = Term r \<and>
                     Msg_Commit msg = N"
        by simp
      from x(3) have b: "\<forall>p\<in>fst ` set prs'. p \<noteq> id' r \<longrightarrow>
                     (\<exists>msg\<in>set xs. Msg_To msg = p) \<or>
                     (\<exists>q t. map_of prs' p = Some q \<and>
                        RaftLog_Term (RaftLog r) (Next q - 1) = Inr (t, Some ErrCompacted))"
        by simp
      from m a b show "\<exists>xs. msgs r' = msgs r @ xs \<and>
                  (\<forall>msg\<in>set xs. Msg_MsgType msg = MsgAppend \<and> Msg_To msg \<in> fst ` set prs' \<and>
                     Msg_To msg \<noteq> id' r \<and> Msg_From msg = id' r \<and> Msg_Term msg = Term r \<and>
                     Msg_Commit msg = N) \<and>
                  (\<forall>p\<in>fst ` set prs'. p \<noteq> id' r \<longrightarrow>
                     (\<exists>msg\<in>set xs. Msg_To msg = p) \<or>
                     (\<exists>q t. map_of prs' p = Some q \<and>
                        RaftLog_Term (RaftLog r) (Next q - 1) = Inr (t, Some ErrCompacted)))"
        by blast
    }
    assume all: "\<forall>p\<in>fst ` set prs'. p \<noteq> id' r \<longrightarrow>
                (\<exists>q t. map_of prs' p = Some q \<and>
                   RaftLog_Term (RaftLog r) (Next q - 1) = Inr (t, None) \<and>
                   0 \<le> sint (Next q - first (RaftLog r)))"
    have "\<exists>r'. bcastAppend ?r2 = Inr r'"
    proof (rule bcastAppend_returns, intro ballI impI)
      fix p assume "p \<in> fst ` set (Prs ?r2)" "p \<noteq> id' ?r2"
      with all obtain q t where "map_of prs' p = Some q"
        "RaftLog_Term (RaftLog r) (Next q - 1) = Inr (t, None)"
        "0 \<le> sint (Next q - first (RaftLog r))"
        by auto
      then show "\<exists>pr t e. map_of (Prs ?r2) p = Some pr \<and>
        RaftLog_Term (RaftLog ?r2) (Next pr - 1) = Inr (t, e) \<and>
        (e = None \<and> 0 \<le> sint (Next pr - first (RaftLog ?r2)) \<or> e = Some ErrCompacted)"
        by auto
    qed
    with e show "\<exists>r'. handleAppendEntriesResponse r m = Inr r'" by simp
  next
    assume "\<not> committed (RaftLog r) < N \<or>
          (\<exists>t. RaftLog_Term (RaftLog r) N = Inr (t, None) \<and> t \<noteq> Term r)"
    then show "handleAppendEntriesResponse r m = Inr ?r1"
      by (auto simp: h lc)
  qed
qed

lemma bcastAppend_frame:
  "bcastAppend r = Inr r' \<Longrightarrow> \<exists>xs. r' = r\<lparr>msgs := msgs r @ xs\<rparr>"
  using bcastAppend_result [of r r'] by blast

lemma appendEntries_self_match:
  assumes run: "appendEntries r ents = Inr r'"
      and self: "map_of (Prs r') (id' r') = Some p"
  shows "Match p = LastIndex (RaftLog r')"
proof -
  define l1 where "l1 = (RaftLog r)\<lparr>entries := entries (RaftLog r) @
     map (\<lambda>(i, ent). ent\<lparr>Entry_Term := Term r, Entry_Index := LastIndex (RaftLog r) + of_nat i + 1\<rparr>)
       (enumerate 0 ents)\<rparr>"
  from run obtain p0 where p0: "map_of (Prs r) (id' r) = Some p0"
    by (auto simp: appendEntries_def Let_def setProgress_def split: option.splits)
  define prs2 where "prs2 = AList.update (id' r) (p0\<lparr>Match := LastIndex l1, Next := LastIndex l1 + 1\<rparr>)
      (AList.update (id' r) (p0\<lparr>Match := LastIndex l1\<rparr>) (Prs r))"
  from run p0 obtain r2 where
    b: "bcastAppend (r\<lparr>RaftLog := l1, Prs := prs2\<rparr>) = Inr r2"
    and r': "r' = r2 \<or> r' = r2\<lparr>RaftLog := (RaftLog r2)\<lparr>committed := Match (the (map_of (Prs r2) (id' r2)))\<rparr>\<rparr>"
    by (auto simp: appendEntries_def Let_def setProgress_def l1_def prs2_def update_conv'
             split: sum.splits option.splits if_splits)
  from bcastAppend_frame [OF b] obtain xs where
    r2: "r2 = r\<lparr>RaftLog := l1, Prs := prs2, msgs := msgs r @ xs\<rparr>"
    by auto
  from r' r2 have "Prs r' = prs2" "id' r' = id' r" "LastIndex (RaftLog r') = LastIndex l1"
    by auto
  with self show ?thesis
    by (auto simp: prs2_def update_conv')
qed

lemma word_le_succ:
  fixes w :: "'a::len word"
  assumes "w + 1 \<noteq> 0"
  shows "w \<le> w + 1"
proof -
  from assms have "1 + w \<noteq> 0" by (simp add: add.commute)
  then have "unat (1 + w) = Suc (unat w)" by (rule unatSuc)
  then show ?thesis by (simp add: word_le_nat_alt add.commute)
qed

lemma map_of_map_keep:
  "map_of (map (\<lambda>(k, v). if c = k then (k, f v) else (k, g v)) al) c = map_option f (map_of al c)"
  by (induction al) auto

lemma becomeLeader_self_match:
  assumes run: "becomeLeader r = Inr r'"
      and self: "map_of (Prs r') (id' r') = Some p"
      and nowrap: "LastIndex (RaftLog r) + 1 \<noteq> 0"
  shows "Match p = LastIndex (RaftLog r')"
proof -
  define L where "L = LastIndex (RaftLog r)"
  define l1 where "l1 = (RaftLog r)\<lparr>entries := entries (RaftLog r) @
     [\<lparr>Entry_Type = EntryNormal, Entry_Term = Term r, Entry_Index = L + 1, Entry_Data = []\<rparr>]\<rparr>"
  define prs1 where "prs1 = map (\<lambda>(peer, pr). if id' r = peer
       then (peer, pr\<lparr>Next := L + 2, Match := L + 1\<rparr>) else (peer, pr\<lparr>Next := L + 1\<rparr>)) (Prs r)"
  from run obtain r4 where
    b: "bcastAppend (r\<lparr>State := StateLeader, Lead := id' r, heartbeatElapsed := 0,
          Prs := prs1, RaftLog := l1\<rparr>) = Inr r4"
    and r': "r' = r4 \<or> r' = r4\<lparr>RaftLog := (RaftLog r4)\<lparr>committed := Match (the (map_of (Prs r4) (id' r4)))\<rparr>\<rparr>"
    by (auto simp: becomeLeader_def Let_def l1_def prs1_def L_def
             split: sum.splits option.splits if_splits cong: if_cong)
  from bcastAppend_frame [OF b] obtain xs where
    r4: "r4 = r\<lparr>State := StateLeader, Lead := id' r, heartbeatElapsed := 0,
          Prs := prs1, RaftLog := l1, msgs := msgs r @ xs\<rparr>"
    by auto
  from r' r4 have f: "Prs r' = prs1" "id' r' = id' r" "LastIndex (RaftLog r') = LastIndex l1"
    by auto
  from self have "map_option (\<lambda>pr. pr\<lparr>Next := L + 2, Match := L + 1\<rparr>) (map_of (Prs r) (id' r)) = Some p"
    unfolding f prs1_def map_of_map_keep .
  then have m: "Match p = L + 1" by auto
  have "(if \<not> IsEmptySnap (pendingSnapshot (RaftLog r)) then snapIndex (pendingSnapshot (RaftLog r)) else 0) \<le> L"
    by (simp add: L_def LastIndex_def Let_def)
  moreover from nowrap have "L \<le> L + 1"
    unfolding L_def by (rule word_le_succ)
  ultimately have "LastIndex l1 = L + 1"
    by (auto simp: l1_def LastIndex_def Let_def max_def split: if_splits)
  with m f show ?thesis by simp
qed

text \<open>
  C2 (as the code has it). When a leader processes an accepted \<^verbatim>\<open>MsgAppendResponse\<close> that
  raises \<open>match(F)\<close>, it stores the new \<open>match\<close> and \<open>next\<close> of \<open>F\<close>, sorts the \<open>Match\<close>
  values recorded for all peers ascending and takes \<open>N\<close> at position \<open>(n - 1) div 2\<close>. If
  \<open>N > committed\<close> and the term of entry \<open>N\<close> is the leader's term, the call is the
  broadcast of appends from the state with \<open>committed := N\<close>: when it returns,
  \<open>committed = N\<close> and the new messages are \<^verbatim>\<open>MsgAppend\<close>s with commit \<open>N\<close>, one to every
  other peer whose previous index is not compacted; it returns whenever every other
  peer's previous term resolves. If \<open>N \<le> committed\<close>, or the term of entry \<open>N\<close> is
  another term, nothing but the progress of \<open>F\<close> changes: no commit and no message, so an
  entry of a prior term is never committed by counting replicas. The node's own \<open>Match\<close>
  is its last index after \<open>appendEntries\<close> and after \<open>becomeLeader\<close>, the two places that
  write it.
\<close>

theorem leader_commit_advance:
  assumes fresh: "\<not> Msg_Term m < Term r" and acc: "\<not> Msg_Reject m"
      and pr: "map_of (Prs r) (Msg_From m) = Some pr" and raise: "Match pr < Msg_Index m"
      and prs': "prs' = AList.update (Msg_From m)
                          (pr\<lparr>Match := Msg_Index m, Next := Msg_Index m + 1\<rparr>) (Prs r)"
      and N: "N = sort (map (\<lambda>(peer, p). Match p) prs') ! ((length prs' - 1) div 2)"
  shows "((committed (RaftLog r) < N \<and> RaftLog_Term (RaftLog r) N = Inr (Term r, None) \<longrightarrow>
            handleAppendEntriesResponse r m =
              bcastAppend (r\<lparr>Prs := prs', RaftLog := (RaftLog r)\<lparr>committed := N\<rparr>\<rparr>) \<and>
            (\<forall>r'. handleAppendEntriesResponse r m = Inr r' \<longrightarrow>
               committed (RaftLog r') = N \<and> Prs r' = prs' \<and>
               (\<exists>xs. msgs r' = msgs r @ xs \<and>
                  (\<forall>msg\<in>set xs. Msg_MsgType msg = MsgAppend \<and> Msg_To msg \<in> fst ` set prs' \<and>
                     Msg_To msg \<noteq> id' r \<and> Msg_From msg = id' r \<and> Msg_Term msg = Term r \<and>
                     Msg_Commit msg = N) \<and>
                  (\<forall>p\<in>fst ` set prs'. p \<noteq> id' r \<longrightarrow>
                     (\<exists>msg\<in>set xs. Msg_To msg = p) \<or>
                     (\<exists>q t. map_of prs' p = Some q \<and>
                        RaftLog_Term (RaftLog r) (Next q - 1) = Inr (t, Some ErrCompacted))))) \<and>
            ((\<forall>p\<in>fst ` set prs'. p \<noteq> id' r \<longrightarrow>
                (\<exists>q t. map_of prs' p = Some q \<and>
                   RaftLog_Term (RaftLog r) (Next q - 1) = Inr (t, None) \<and>
                   0 \<le> sint (Next q - first (RaftLog r)))) \<longrightarrow>
             (\<exists>r'. handleAppendEntriesResponse r m = Inr r'))) \<and>
         (\<not> committed (RaftLog r) < N \<or>
          (\<exists>t. RaftLog_Term (RaftLog r) N = Inr (t, None) \<and> t \<noteq> Term r) \<longrightarrow>
            handleAppendEntriesResponse r m = Inr (r\<lparr>Prs := prs'\<rparr>))) \<and>
         (\<forall>r0 ents r1 p0. appendEntries r0 ents = Inr r1 \<and> map_of (Prs r1) (id' r1) = Some p0 \<longrightarrow>
            Match p0 = LastIndex (RaftLog r1)) \<and>
         (\<forall>r0 r1 p0. becomeLeader r0 = Inr r1 \<and> map_of (Prs r1) (id' r1) = Some p0 \<and>
            LastIndex (RaftLog r0) + 1 \<noteq> 0 \<longrightarrow>
            Match p0 = LastIndex (RaftLog r1))"
proof -
  have A: "(committed (RaftLog r) < N \<and> RaftLog_Term (RaftLog r) N = Inr (Term r, None) \<longrightarrow>
            handleAppendEntriesResponse r m =
              bcastAppend (r\<lparr>Prs := prs', RaftLog := (RaftLog r)\<lparr>committed := N\<rparr>\<rparr>) \<and>
            (\<forall>r'. handleAppendEntriesResponse r m = Inr r' \<longrightarrow>
               committed (RaftLog r') = N \<and> Prs r' = prs' \<and>
               (\<exists>xs. msgs r' = msgs r @ xs \<and>
                  (\<forall>msg\<in>set xs. Msg_MsgType msg = MsgAppend \<and> Msg_To msg \<in> fst ` set prs' \<and>
                     Msg_To msg \<noteq> id' r \<and> Msg_From msg = id' r \<and> Msg_Term msg = Term r \<and>
                     Msg_Commit msg = N) \<and>
                  (\<forall>p\<in>fst ` set prs'. p \<noteq> id' r \<longrightarrow>
                     (\<exists>msg\<in>set xs. Msg_To msg = p) \<or>
                     (\<exists>q t. map_of prs' p = Some q \<and>
                        RaftLog_Term (RaftLog r) (Next q - 1) = Inr (t, Some ErrCompacted))))) \<and>
            ((\<forall>p\<in>fst ` set prs'. p \<noteq> id' r \<longrightarrow>
                (\<exists>q t. map_of prs' p = Some q \<and>
                   RaftLog_Term (RaftLog r) (Next q - 1) = Inr (t, None) \<and>
                   0 \<le> sint (Next q - first (RaftLog r)))) \<longrightarrow>
             (\<exists>r'. handleAppendEntriesResponse r m = Inr r'))) \<and>
         (\<not> committed (RaftLog r) < N \<or>
          (\<exists>t. RaftLog_Term (RaftLog r) N = Inr (t, None) \<and> t \<noteq> Term r) \<longrightarrow>
            handleAppendEntriesResponse r m = Inr (r\<lparr>Prs := prs'\<rparr>))"
    by (rule handleAppendEntriesResponse_commit [OF fresh acc pr raise prs' N])
  have B: "\<forall>r0 ents r1 p0. appendEntries r0 ents = Inr r1 \<and> map_of (Prs r1) (id' r1) = Some p0 \<longrightarrow>
            Match p0 = LastIndex (RaftLog r1)"
    using appendEntries_self_match by blast
  have C: "\<forall>r0 r1 p0. becomeLeader r0 = Inr r1 \<and> map_of (Prs r1) (id' r1) = Some p0 \<and>
            LastIndex (RaftLog r0) + 1 \<noteq> 0 \<longrightarrow>
            Match p0 = LastIndex (RaftLog r1)"
    using becomeLeader_self_match by blast
  show ?thesis
    by (rule conjI [OF A conjI [OF B C]])
qed

text \<open>
  The theorem at two leaders. \<open>nodeL1\<close> (term 1) hears that peer 2 holds index 1: the
  median is 1, entry 1 has term 1, index 1 is committed and an append goes to peer 3.
  \<open>nodeL2\<close> (term 2) hears the same: the median 1 is an entry of term 1 and nothing is
  committed.
\<close>

theorem leader_commit_advance_witness:
  "(\<exists>r'. handleAppendEntriesResponse nodeL1 (respMsg 2 1 1) = Inr r' \<and>
          committed (RaftLog nodeL1) = 0 \<and> committed (RaftLog r') = 1 \<and>
          (\<exists>xs. msgs r' = msgs nodeL1 @ xs \<and> (\<exists>msg\<in>set xs. Msg_To msg = 3))) \<and>
   handleAppendEntriesResponse nodeL2 (respMsg 2 2 1) =
     Inr (nodeL2\<lparr>Prs := [(1, \<lparr>Match = 2, Next = 3\<rparr>), (2, \<lparr>Match = 1, Next = 2\<rparr>),
                           (3, \<lparr>Match = 0, Next = 1\<rparr>)]\<rparr>)"
proof -
  let ?prs1 = "[(1, \<lparr>Match = 1, Next = 2\<rparr>), (2, \<lparr>Match = 1, Next = 2\<rparr>),
                (3, \<lparr>Match = 0, Next = 1\<rparr>)] :: (u64 \<times> Progress) list"
  let ?prs2 = "[(1, \<lparr>Match = 2, Next = 3\<rparr>), (2, \<lparr>Match = 1, Next = 2\<rparr>),
                (3, \<lparr>Match = 0, Next = 1\<rparr>)] :: (u64 \<times> Progress) list"
  have f1: "\<not> Msg_Term (respMsg 2 1 1) < Term nodeL1" "\<not> Msg_Reject (respMsg 2 1 1)"
    "map_of (Prs nodeL1) (Msg_From (respMsg 2 1 1)) = Some \<lparr>Match = 0, Next = 1\<rparr>"
    "Match \<lparr>Match = 0, Next = 1\<rparr> < Msg_Index (respMsg 2 1 1)"
    by (simp_all add: ex_defs)
  have p1: "?prs1 = AList.update (Msg_From (respMsg 2 1 1))
       (\<lparr>Match = 0, Next = 1\<rparr>\<lparr>Match := Msg_Index (respMsg 2 1 1),
          Next := Msg_Index (respMsg 2 1 1) + 1\<rparr>) (Prs nodeL1)"
    by (simp add: ex_defs)
  have n1: "(1 :: u64) = sort (map (\<lambda>(peer, p). Match p) ?prs1) ! ((length ?prs1 - 1) div 2)"
    by code_simp
  have c1: "committed (RaftLog nodeL1) < 1 \<and>
            RaftLog_Term (RaftLog nodeL1) 1 = Inr (Term nodeL1, None)"
    by (simp add: ex_defs RaftLog_Term_def)
  have a1: "\<forall>p\<in>fst ` set ?prs1. p \<noteq> id' nodeL1 \<longrightarrow>
              (\<exists>q t. map_of ?prs1 p = Some q \<and>
                 RaftLog_Term (RaftLog nodeL1) (Next q - 1) = Inr (t, None) \<and>
                 0 \<le> sint (Next q - first (RaftLog nodeL1)))"
    by (simp add: ex_defs RaftLog_Term_def)
  have k1: "committed (RaftLog nodeL1) = 0" "id' nodeL1 = 1"
    "RaftLog_Term (RaftLog nodeL1) 0 = Inr (0, None)"
    by (simp_all add: ex_defs RaftLog_Term_def)
  note T1 = leader_commit_advance [OF f1 p1 n1, THEN conjunct1, THEN conjunct1, rule_format, OF c1]
  from T1 a1 obtain r' where r': "handleAppendEntriesResponse nodeL1 (respMsg 2 1 1) = Inr r'"
    by blast
  with T1 obtain xs where x: "committed (RaftLog r') = 1" "msgs r' = msgs nodeL1 @ xs"
    "\<forall>p\<in>fst ` set ?prs1. p \<noteq> id' nodeL1 \<longrightarrow>
       (\<exists>msg\<in>set xs. Msg_To msg = p) \<or>
       (\<exists>q t. map_of ?prs1 p = Some q \<and>
          RaftLog_Term (RaftLog nodeL1) (Next q - 1) = Inr (t, Some ErrCompacted))"
    by blast
  from x(3) have "\<exists>msg\<in>set xs. Msg_To msg = 3"
    by (simp add: k1)
  with r' x k1 have W1: "\<exists>r'. handleAppendEntriesResponse nodeL1 (respMsg 2 1 1) = Inr r' \<and>
          committed (RaftLog nodeL1) = 0 \<and> committed (RaftLog r') = 1 \<and>
          (\<exists>xs. msgs r' = msgs nodeL1 @ xs \<and> (\<exists>msg\<in>set xs. Msg_To msg = 3))"
    by blast
  have f2: "\<not> Msg_Term (respMsg 2 2 1) < Term nodeL2" "\<not> Msg_Reject (respMsg 2 2 1)"
    "map_of (Prs nodeL2) (Msg_From (respMsg 2 2 1)) = Some \<lparr>Match = 0, Next = 1\<rparr>"
    "Match \<lparr>Match = 0, Next = 1\<rparr> < Msg_Index (respMsg 2 2 1)"
    by (simp_all add: ex_defs)
  have p2: "?prs2 = AList.update (Msg_From (respMsg 2 2 1))
       (\<lparr>Match = 0, Next = 1\<rparr>\<lparr>Match := Msg_Index (respMsg 2 2 1),
          Next := Msg_Index (respMsg 2 2 1) + 1\<rparr>) (Prs nodeL2)"
    by (simp add: ex_defs)
  have n2: "(1 :: u64) = sort (map (\<lambda>(peer, p). Match p) ?prs2) ! ((length ?prs2 - 1) div 2)"
    by code_simp
  have c2: "\<not> committed (RaftLog nodeL2) < 1 \<or>
            (\<exists>t. RaftLog_Term (RaftLog nodeL2) 1 = Inr (t, None) \<and> t \<noteq> Term nodeL2)"
    by (simp add: ex_defs RaftLog_Term_def)
  note W2 = leader_commit_advance [OF f2 p2 n2, THEN conjunct1, THEN conjunct2, rule_format, OF c2]
  from W1 W2 show ?thesis
    by (rule conjI)
qed

text \<open>
  C2 as stated fails in two places. The leader \<open>nodeL3\<close> hears that peer 2 holds index
  4: the median 4 is an entry of its term and \<open>committed\<close> goes from 2 to 4, but the only
  message queued is the append to peer 2; the previous index 0 of peer 3 is compacted and
  peer 3 is sent nothing. And the leader \<open>nodeL1\<close>, having accepted an append of its own
  term that brought entry 2, has the last index 2 and its own \<open>Match\<close> still 1: when peer
  2 acknowledges index 2 the median of 1, 2, 0 is 1, and that is what it commits.
\<close>

lemma sort3: "sort [4, 4, 0 :: u64] = [0, 4, 4]" "sort [1, 2, 0 :: u64] = [0, 1, 2]"
  "\<not> (2 :: u64) \<le> 1"
  by code_simp+

lemmas commit_defs =
  handleAppendEntriesResponse_def leaderCommit_def bcastAppend_def sendAppend_def
  RaftLog_Term_def toSliceIndex_def send_def Let_def IsEmptySnap_def None'_def

theorem leader_commit_advance_counterexample:
  "(\<exists>r'. handleAppendEntriesResponse nodeL3 (respMsg 2 1 4) = Inr r' \<and>
      committed (RaftLog nodeL3) = 2 \<and> committed (RaftLog r') = 4 \<and>
      map fst (Prs r') = [1, 2, 3] \<and> id' r' = 1 \<and>
      msgs nodeL3 = [] \<and> map Msg_To (msgs r') = [2]) \<and>
   (\<exists>r1 r2. Step nodeL1 (appendMsg 2 1 1 1 [mkEntry 1 2] 0) = Inr (None, r1) \<and>
      State r1 = StateLeader \<and> LastIndex (RaftLog r1) = 2 \<and>
      map_of (Prs r1) (id' r1) = Some \<lparr>Match = 1, Next = 2\<rparr> \<and>
      handleAppendEntriesResponse r1 (respMsg 2 1 2) = Inr r2 \<and>
      committed (RaftLog r2) = 1)"
proof -
  have "\<exists>r'. handleAppendEntriesResponse nodeL3 (respMsg 2 1 4) = Inr r' \<and>
      committed (RaftLog nodeL3) = 2 \<and> committed (RaftLog r') = 4 \<and>
      map fst (Prs r') = [1, 2, 3] \<and> id' r' = 1 \<and>
      msgs nodeL3 = [] \<and> map Msg_To (msgs r') = [2]"
    by (simp add: ex_defs commit_defs sort3)
  moreover have "\<exists>r1 r2. Step nodeL1 (appendMsg 2 1 1 1 [mkEntry 1 2] 0) = Inr (None, r1) \<and>
      State r1 = StateLeader \<and> LastIndex (RaftLog r1) = 2 \<and>
      map_of (Prs r1) (id' r1) = Some \<lparr>Match = 1, Next = 2\<rparr> \<and>
      handleAppendEntriesResponse r1 (respMsg 2 1 2) = Inr r2 \<and>
      committed (RaftLog r2) = 1"
    by (simp add: ex_defs Step_def stepLeader_def run_defs commit_defs sort3)
  ultimately show ?thesis
    by (rule conjI)
qed

section \<open>A proposal at a node that is not the leader\<close>

lemma Step_propose_not_leader:
  assumes "State r \<noteq> StateLeader" and "Msg_MsgType m = MsgPropose"
      and "\<not> Term r < Msg_Term m"
  shows "Step r m = Inr (None, r)"
  using assms
  by (cases "State r") (simp_all add: Step_def stepFollower_def stepCandidate_def)

text \<open>
  C4 (what the code does). \<open>Step\<close> on a \<^verbatim>\<open>MsgPropose\<close> at a follower and at a candidate
  returns \<^verbatim>\<open>nil\<close>, not \<^verbatim>\<open>ErrProposalDropped\<close>; the node is unchanged (no entry, no
  message), so the proposal is dropped silently.
\<close>

theorem Step_propose_returns_nil:
  "State nodeF = StateFollower \<and> State nodeC = StateCandidate \<and>
   Step nodeF (proposeMsg [mkEntry 0 0]) = Inr (None, nodeF) \<and>
   Step nodeC (proposeMsg [mkEntry 0 0]) = Inr (None, nodeC)"
proof -
  have "State nodeF = StateFollower" "State nodeC = StateCandidate"
    "Msg_MsgType (proposeMsg [mkEntry 0 0]) = MsgPropose"
    "\<not> Term nodeF < Msg_Term (proposeMsg [mkEntry 0 0])"
    "\<not> Term nodeC < Msg_Term (proposeMsg [mkEntry 0 0])"
    by (simp_all add: ex_defs nodeC_def proposeMsg_def)
  then show ?thesis
    by (simp add: Step_propose_not_leader)
qed

section \<open>What each handler changes\<close>

lemma calm_refl [simp]: "calm r r"
  by (simp add: calm_def)

lemma calm_trans: "calm r r1 \<Longrightarrow> calm r1 r2 \<Longrightarrow> calm r r2"
proof -
  assume a: "calm r r1" and b: "calm r1 r2"
  from a obtain xs where x: "msgs r1 = msgs r @ xs" "\<forall>g\<in>set xs. \<not> isGrant g"
    by (auto simp: calm_def)
  from b obtain ys where y: "msgs r2 = msgs r1 @ ys" "\<forall>g\<in>set ys. \<not> isGrant g"
    by (auto simp: calm_def)
  from x y have "msgs r2 = msgs r @ (xs @ ys) \<and> (\<forall>g\<in>set (xs @ ys). \<not> isGrant g)"
    by auto
  then have "\<exists>zs. msgs r2 = msgs r @ zs \<and> (\<forall>g\<in>set zs. \<not> isGrant g)"
    by blast
  with a b show ?thesis
    by (simp add: calm_def)
qed

lemma calm_send: "\<not> isGrant msg \<Longrightarrow> calm r (send r msg)"
  unfolding calm_def send_def by (auto intro: exI [of _ "[msg]"])

lemma calm_msgs_only: "id' r' = id' r \<Longrightarrow> Term r' = Term r \<Longrightarrow> Vote r' = Vote r \<Longrightarrow>
  State r' = State r \<Longrightarrow> msgs r' = msgs r \<Longrightarrow> calm r r'"
  by (simp add: calm_def)

lemma calm_sendAppend: "sendAppend r to = Inr (b, r') \<Longrightarrow> calm r r'"
  using sendAppend_cases [of r to b r']
  by (cases b) (auto simp: calm_def isGrant_def)

lemma calm_bcastAppend: "bcastAppend r = Inr r' \<Longrightarrow> calm r r'"
  using bcastAppend_result [of r r']
  by (auto simp: calm_def isGrant_def)

lemma calm_bcastHeartbeat_loop: "calm r (bcastHeartbeat_loop ps r)"
proof (induction ps arbitrary: r)
  case Nil
  show ?case by simp
next
  case (Cons p ps)
  have "calm r (sendHeartbeat r p)"
    unfolding sendHeartbeat_def by (rule calm_send) (simp add: isGrant_def)
  then show ?case
    using Cons [of r] Cons [of "sendHeartbeat r p"] by (auto intro: calm_trans)
qed

lemma calm_bcastHeartbeat: "calm r (bcastHeartbeat r)"
  by (simp add: bcastHeartbeat_def calm_bcastHeartbeat_loop)

lemma RaftLog_bcastHeartbeat_loop [simp]: "RaftLog (bcastHeartbeat_loop ps r) = RaftLog r"
  by (induction ps arbitrary: r) (auto simp: sendHeartbeat_def)

lemma calm_sendRequestVote_loop: "calm r (sendRequestVote_loop ps i t r)"
proof (induction ps arbitrary: r)
  case Nil
  show ?case by simp
next
  case (Cons p ps)
  have "calm r (sendRequestVote r p i t)"
    unfolding sendRequestVote_def by (rule calm_send) (simp add: isGrant_def)
  then show ?case
    using Cons [of r] Cons [of "sendRequestVote r p i t"] by (auto intro: calm_trans)
qed

lemma RaftLog_sendRequestVote_loop [simp]:
  "RaftLog (sendRequestVote_loop ps i t r) = RaftLog r"
  by (induction ps arbitrary: r) (auto simp: sendRequestVote_def)

lemma calm_handleHeartbeat: "calm r (handleHeartbeat r m)"
  by (auto simp: handleHeartbeat_def sendHeartbeatResponse_def send_def calm_def isGrant_def)

lemma RaftLog_handleHeartbeat [simp]: "RaftLog (handleHeartbeat r m) = RaftLog r"
  by (simp add: handleHeartbeat_def sendHeartbeatResponse_def)

lemma checkPrev_effect:
  "checkPrev r m = Inr (Some r') \<Longrightarrow> calm r r' \<and> RaftLog r' = RaftLog r"
  by (auto simp: checkPrev_def sendAppendResponse_def send_def calm_def isGrant_def
           split: if_splits sum.splits option.splits prod.splits)

lemma handleAppendEntries_effect:
  assumes "handleAppendEntries r m = Inr r'"
  shows "calm r r' \<and>
         (committed (RaftLog r') = committed (RaftLog r) \<or>
          committed (RaftLog r) < Msg_Commit m \<and>
          committed (RaftLog r') =
            min (Msg_Commit m) (Msg_Index m + of_nat (length (Msg_Entries m))))"
proof -
  let ?r1 = "r\<lparr>Lead := Msg_From m, electionElapsed := 0\<rparr>"
  have c1: "calm r ?r1" by (simp add: calm_def)
  show ?thesis
  proof (cases "Msg_Term m < Term r \<or> LastIndex (RaftLog r) < Msg_Index m")
    case True
    with assms show ?thesis
      by (auto simp: handleAppendEntries_def sendAppendResponse_def send_def calm_def
                     isGrant_def Let_def split: if_splits)
  next
    case False
    show ?thesis
    proof (cases "checkPrev ?r1 m")
      case (Inl p)
      with assms False show ?thesis by (simp add: handleAppendEntries_def Let_def)
    next
      case (Inr o1)
      show ?thesis
      proof (cases o1)
        case (Some rej)
        with Inr assms False have "r' = rej" by (simp add: handleAppendEntries_def Let_def)
        with checkPrev_effect [of ?r1 m rej] Inr Some c1 show ?thesis
          by (auto intro: calm_trans)
      next
        case None
        with Inr assms False obtain l2 where
          l2: "appendLoop (Msg_Entries m) (RaftLog r) = Inr l2"
          by (auto simp: handleAppendEntries_def Let_def split: sum.splits)
        from appendLoop_frame [OF l2] have f: "committed l2 = committed (RaftLog r)"
          by simp
        from assms False Inr None l2 f show ?thesis
          by (auto simp: handleAppendEntries_def Let_def sendAppendResponse_def send_def
                         calm_def isGrant_def split: if_splits)
      qed
    qed
  qed
qed

lemma bcastAppend_RaftLog: "bcastAppend r = Inr r' \<Longrightarrow> RaftLog r' = RaftLog r \<and> Prs r' = Prs r"
  using bcastAppend_frame [of r r'] by auto

lemma sendAppend_RaftLog: "sendAppend r to = Inr (b, r') \<Longrightarrow> RaftLog r' = RaftLog r"
  using sendAppend_cases [of r to b r'] by (cases b) auto

lemma leaderCommit_effect:
  assumes "leaderCommit r = Inr r'"
  shows "calm r r' \<and> committed (RaftLog r) \<le> committed (RaftLog r')"
proof (cases "r' = r")
  case True
  then show ?thesis by simp
next
  case False
  with assms obtain n where n: "committed (RaftLog r) < n"
    and b: "bcastAppend (r\<lparr>RaftLog := (RaftLog r)\<lparr>committed := n\<rparr>\<rparr>) = Inr r'"
    by (auto simp: leaderCommit_def Let_def split: if_splits sum.splits prod.splits option.splits)
  have "calm r (r\<lparr>RaftLog := (RaftLog r)\<lparr>committed := n\<rparr>\<rparr>)"
    by (simp add: calm_def)
  with calm_bcastAppend [OF b] have "calm r r'"
    by (blast intro: calm_trans)
  moreover from bcastAppend_RaftLog [OF b] n have "committed (RaftLog r) \<le> committed (RaftLog r')"
    by simp
  ultimately show ?thesis by simp
qed

lemma handleAppendEntriesResponse_effect:
  assumes "handleAppendEntriesResponse r m = Inr r'"
  shows "calm r r' \<and> committed (RaftLog r) \<le> committed (RaftLog r')"
proof (cases "r' = r")
  case True
  then show ?thesis by simp
next
  case False
  show ?thesis
  proof (cases "Msg_Reject m")
    case True
    with assms False obtain prs b where
      s: "sendAppend (r\<lparr>Prs := prs\<rparr>) (Msg_From m) = Inr (b, r')"
      by (auto simp: handleAppendEntriesResponse_def split: if_splits sum.splits prod.splits)
    have "calm r (r\<lparr>Prs := prs\<rparr>)" by (simp add: calm_def)
    with calm_sendAppend [OF s] have "calm r r'" by (blast intro: calm_trans)
    moreover from sendAppend_RaftLog [OF s] have "RaftLog r' = RaftLog r" by simp
    ultimately show ?thesis by simp
  next
    case acc: False
    with assms False obtain prs where
      l: "leaderCommit (r\<lparr>Prs := prs\<rparr>) = Inr r'"
      by (auto simp: handleAppendEntriesResponse_def split: if_splits option.splits)
    have "calm r (r\<lparr>Prs := prs\<rparr>)" by (simp add: calm_def)
    with leaderCommit_effect [OF l] show ?thesis
      by (auto intro: calm_trans)
  qed
qed

lemma word_le_add_of_nat:
  fixes w :: "'a::len word"
  assumes "unat w + n < 2 ^ LENGTH('a)"
  shows "w \<le> w + of_nat n"
proof -
  from assms have "n < 2 ^ LENGTH('a)" by simp
  then have "unat (of_nat n :: 'a word) = n"
    by (simp add: unat_of_nat)
  with assms have "unat w + unat (of_nat n :: 'a word) < 2 ^ LENGTH('a)" by simp
  then have "unat (w + of_nat n) = unat w + unat (of_nat n :: 'a word)"
    by (simp add: unat_add_lem [THEN iffD1])
  then show ?thesis by (simp add: word_le_nat_alt)
qed

lemma LastIndex_snoc:
  "LastIndex (l\<lparr>entries := es @ [e]\<rparr>) =
     max (Entry_Index e)
         (if \<not> IsEmptySnap (pendingSnapshot l) then snapIndex (pendingSnapshot l) else 0)"
  by (simp add: LastIndex_def)

lemma LastIndex_append_stamped:
  assumes nw: "unat (LastIndex l) + length ents < 2 ^ 64"
  shows "LastIndex l \<le>
         LastIndex (l\<lparr>entries := entries l @
           map (\<lambda>(i, ent). ent\<lparr>Entry_Term := t, Entry_Index := LastIndex l + of_nat i + 1\<rparr>)
             (enumerate 0 ents)\<rparr>)"
proof (cases ents rule: rev_cases)
  case Nil
  then show ?thesis by (simp add: LastIndex_def)
next
  case (snoc ys y)
  define L where "L = LastIndex l"
  define f :: "nat \<times> Entry \<Rightarrow> Entry"
    where "f = (\<lambda>(i, ent). ent\<lparr>Entry_Term := t, Entry_Index := L + of_nat i + 1\<rparr>)"
  have e: "entries l @ map f (enumerate 0 (ys @ [y])) =
           (entries l @ map f (enumerate 0 ys)) @ [f (length ys, y)]"
    by (simp add: enumerate_append_eq)
  from nw snoc have "unat L + (length ys + 1) < 2 ^ LENGTH(64)" by (simp add: L_def)
  then have "L \<le> L + of_nat (length ys + 1)" by (rule word_le_add_of_nat)
  then have "L \<le> L + of_nat (length ys) + 1" by (simp add: ac_simps)
  then have "L \<le> LastIndex (l\<lparr>entries := entries l @ map f (enumerate 0 (ys @ [y]))\<rparr>)"
    unfolding e LastIndex_snoc by (simp add: f_def le_max_iff_disj)
  then show ?thesis
    unfolding snoc f_def L_def .
qed

lemma appendEntries_effect:
  assumes run: "appendEntries r ents = Inr r'"
  shows "calm r r' \<and>
         (committed (RaftLog r') = committed (RaftLog r) \<or>
          committed (RaftLog r') = LastIndex (RaftLog r')) \<and>
         (unat (LastIndex (RaftLog r)) + length ents < 2 ^ 64 \<longrightarrow>
            LastIndex (RaftLog r) \<le> LastIndex (RaftLog r'))"
proof -
  define l1 where "l1 = (RaftLog r)\<lparr>entries := entries (RaftLog r) @
     map (\<lambda>(i, ent). ent\<lparr>Entry_Term := Term r, Entry_Index := LastIndex (RaftLog r) + of_nat i + 1\<rparr>)
       (enumerate 0 ents)\<rparr>"
  from run obtain prs2 r2 where
    b: "bcastAppend (r\<lparr>RaftLog := l1, Prs := prs2\<rparr>) = Inr r2"
    and r': "r' = r2 \<or> (\<exists>p. map_of (Prs r2) (id' r2) = Some p \<and>
               r' = r2\<lparr>RaftLog := (RaftLog r2)\<lparr>committed := Match p\<rparr>\<rparr>)"
    by (auto simp: appendEntries_def Let_def setProgress_def l1_def
             split: sum.splits option.splits if_splits)
  have c0: "calm r (r\<lparr>RaftLog := l1, Prs := prs2\<rparr>)" by (simp add: calm_def)
  from calm_bcastAppend [OF b] c0 have c2: "calm r r2" by (blast intro: calm_trans)
  from bcastAppend_RaftLog [OF b] have l2: "RaftLog r2 = l1" by simp
  from r' c2 have c: "calm r r'"
    by (auto simp: calm_def)
  from r' l2 have li: "LastIndex (RaftLog r') = LastIndex l1" by auto
  have cm: "committed (RaftLog r') = committed (RaftLog r) \<or>
            committed (RaftLog r') = LastIndex (RaftLog r')"
  proof (cases "r' = r2")
    case True
    with l2 show ?thesis by (simp add: l1_def)
  next
    case False
    with r' obtain p where p: "map_of (Prs r2) (id' r2) = Some p"
      "r' = r2\<lparr>RaftLog := (RaftLog r2)\<lparr>committed := Match p\<rparr>\<rparr>"
      by blast
    then have "map_of (Prs r') (id' r') = Some p" by simp
    from appendEntries_self_match [OF run this] p(2) show ?thesis by simp
  qed
  have "unat (LastIndex (RaftLog r)) + length ents < 2 ^ 64 \<longrightarrow>
            LastIndex (RaftLog r) \<le> LastIndex (RaftLog r')"
    unfolding li l1_def by (intro impI LastIndex_append_stamped)
  with c cm show ?thesis by simp
qed

lemma becomeFollower_effect:
  assumes "becomeFollower r t l = Inr r'"
  shows "id' r' = id' r \<and> Term r' = t \<and> Vote r' = 0 \<and> State r' = StateFollower \<and>
         msgs r' = msgs r \<and> RaftLog r' = RaftLog r \<and> Prs r' = Prs r \<and>
         electionElapsed r' = electionElapsed r"
  using assms
  by (auto simp: becomeFollower_def resetRandomizedElectionTimeout_eq None'_def split: if_splits)

lemma becomeCandidate_effect:
  assumes "becomeCandidate r = Inr r'"
  shows "id' r' = id' r \<and> Term r' = Term r + 1 \<and> Vote r' = id' r \<and>
         State r' = StateCandidate \<and> msgs r' = msgs r \<and> RaftLog r' = RaftLog r \<and>
         Prs r' = Prs r"
  using assms
  by (auto simp: becomeCandidate_def resetRandomizedElectionTimeout_eq split: if_splits)

lemma becomeLeader_effect:
  assumes run: "becomeLeader r = Inr r'"
  shows "id' r' = id' r \<and> Term r' = Term r \<and> Vote r' = Vote r \<and> State r' = StateLeader \<and>
         (\<exists>xs. msgs r' = msgs r @ xs \<and> (\<forall>g\<in>set xs. \<not> isGrant g)) \<and>
         (committed (RaftLog r') = committed (RaftLog r) \<or>
          committed (RaftLog r') = LastIndex (RaftLog r) + 1)"
proof -
  define L where "L = LastIndex (RaftLog r)"
  define l1 where "l1 = (RaftLog r)\<lparr>entries := entries (RaftLog r) @
     [\<lparr>Entry_Type = EntryNormal, Entry_Term = Term r, Entry_Index = L + 1, Entry_Data = []\<rparr>]\<rparr>"
  define prs1 where "prs1 = map (\<lambda>(peer, pr). if id' r = peer
       then (peer, pr\<lparr>Next := L + 2, Match := L + 1\<rparr>) else (peer, pr\<lparr>Next := L + 1\<rparr>)) (Prs r)"
  let ?r3 = "r\<lparr>State := StateLeader, Lead := id' r, heartbeatElapsed := 0,
          Prs := prs1, RaftLog := l1\<rparr>"
  from run obtain r4 where
    b: "bcastAppend ?r3 = Inr r4"
    and r': "r' = r4 \<or> (\<exists>p. map_of (Prs r4) (id' r4) = Some p \<and>
               r' = r4\<lparr>RaftLog := (RaftLog r4)\<lparr>committed := Match p\<rparr>\<rparr>)"
    by (auto simp: becomeLeader_def Let_def l1_def prs1_def L_def
             split: sum.splits option.splits if_splits cong: if_cong)
  from calm_bcastAppend [OF b] have c: "calm ?r3 r4" .
  from bcastAppend_RaftLog [OF b] have f: "RaftLog r4 = l1" "Prs r4 = prs1" by simp_all
  from c have i4: "id' r4 = id' r" by (simp add: calm_def)
  have cm: "committed (RaftLog r') = committed (RaftLog r) \<or> committed (RaftLog r') = L + 1"
  proof (cases "r' = r4")
    case True
    with f show ?thesis by (simp add: l1_def)
  next
    case False
    with r' obtain p where p: "map_of (Prs r4) (id' r4) = Some p"
      "r' = r4\<lparr>RaftLog := (RaftLog r4)\<lparr>committed := Match p\<rparr>\<rparr>"
      by blast
    from p(1) have "map_option (\<lambda>pr. pr\<lparr>Next := L + 2, Match := L + 1\<rparr>) (map_of (Prs r) (id' r)) = Some p"
      unfolding f i4 prs1_def map_of_map_keep .
    then have "Match p = L + 1" by auto
    with p(2) show ?thesis by simp
  qed
  from c r' have "id' r' = id' r \<and> Term r' = Term r \<and> Vote r' = Vote r \<and> State r' = StateLeader \<and>
         (\<exists>xs. msgs r' = msgs r @ xs \<and> (\<forall>g\<in>set xs. \<not> isGrant g))"
    by (auto simp: calm_def)
  with cm show ?thesis by (simp add: L_def)
qed

lemma doElection_effect:
  assumes run: "doElection r = Inr r'"
  shows "id' r' = id' r \<and> Term r' = Term r + 1 \<and> Vote r' = id' r \<and>
         (State r' = StateCandidate \<or> State r' = StateLeader) \<and>
         (\<exists>xs. msgs r' = msgs r @ xs \<and> (\<forall>g\<in>set xs. \<not> isGrant g)) \<and>
         (committed (RaftLog r') = committed (RaftLog r) \<or>
          committed (RaftLog r') = LastIndex (RaftLog r) + 1)"
proof -
  from run obtain r1 where c: "becomeCandidate r = Inr r1"
    by (auto simp: doElection_def split: sum.splits)
  let ?r2 = "r1\<lparr>heartbeatElapsed := 0\<rparr>"
  note e1 = becomeCandidate_effect [OF c]
  show ?thesis
  proof (cases "length (Prs ?r2) = 1")
    case True
    with run c have "becomeLeader ?r2 = Inr r'"
      by (simp add: doElection_def Let_def)
    from becomeLeader_effect [OF this] e1 show ?thesis by simp
  next
    case False
    with run c obtain i t where "r' = sendRequestVote_loop (map fst (Prs ?r2)) i t ?r2"
      by (auto simp: doElection_def Let_def split: sum.splits prod.splits)
    with calm_sendRequestVote_loop [of ?r2 "map fst (Prs ?r2)" i t] e1 show ?thesis
      by (auto simp: calm_def)
  qed
qed

lemma handleRequestVote_effect:
  assumes run: "handleRequestVote r m = Inr r'"
  shows "id' r' = id' r \<and> Term r' = Term r \<and> State r' = State r \<and>
         RaftLog r' = RaftLog r \<and>
         (\<exists>g. msgs r' = msgs r @ [g] \<and>
            (if isGrant g
             then Msg_To g = Msg_From m \<and> Msg_Term g = Term r \<and> Vote r' = Msg_From m \<and>
                  (Vote r = 0 \<or> Vote r = Msg_From m)
             else Vote r' = Vote r))"
proof -
  let ?rej = "sendRequestVoteResponse r (Msg_From m) True"
  let ?acc = "sendRequestVoteResponse (r\<lparr>Vote := Msg_From m, electionElapsed := 0\<rparr>)
                (Msg_From m) False"
  from run consider (rej) "r' = ?rej"
    | (acc) "r' = ?acc" "Vote r = 0 \<or> Vote r = Msg_From m"
    by (auto simp: handleRequestVote_def None'_def split: if_splits sum.splits)
  then show ?thesis
  proof cases
    case rej
    let ?g = "Message0\<lparr>Msg_MsgType := MsgRequestVoteResponse, Msg_To := Msg_From m,
                Msg_From := id' r, Msg_Term := Term r, Msg_Reject := True\<rparr>"
    have "\<not> isGrant ?g" by (simp add: isGrant_def)
    with rej show ?thesis
      by (intro conjI exI [of _ ?g]) (simp_all add: sendRequestVoteResponse_def send_def)
  next
    case acc
    let ?g = "Message0\<lparr>Msg_MsgType := MsgRequestVoteResponse, Msg_To := Msg_From m,
                Msg_From := id' r, Msg_Term := Term r, Msg_Reject := False\<rparr>"
    have "isGrant ?g" "Msg_To ?g = Msg_From m" "Msg_Term ?g = Term r"
      by (simp_all add: isGrant_def)
    with acc show ?thesis
      by (intro conjI exI [of _ ?g]) (simp_all add: sendRequestVoteResponse_def send_def)
  qed
qed

lemma handleRequestVoteResponse_effect:
  assumes run: "handleRequestVoteResponse r m = Inr r'"
  shows "id' r' = id' r \<and> Term r' = Term r \<and>
         (\<exists>xs. msgs r' = msgs r @ xs \<and> (\<forall>g\<in>set xs. \<not> isGrant g)) \<and>
         (Vote r' = Vote r \<and> (State r' = State r \<or> State r' = StateLeader) \<or>
          Vote r' = 0 \<and> State r' = StateFollower) \<and>
         (committed (RaftLog r') = committed (RaftLog r) \<or>
          committed (RaftLog r') = LastIndex (RaftLog r) + 1)"
proof -
  define r1 where "r1 = r\<lparr>votes := AList.update (Msg_From m) (\<not> Msg_Reject m) (votes r)\<rparr>"
  define granted where "granted = length (filter snd (votes r1))"
  define quorum where "quorum = length (Prs r1) div 2"
  have h: "handleRequestVoteResponse r m =
     (if quorum < granted then becomeLeader r1
      else if quorum < length (votes r1) - granted then becomeFollower r1 (Term r1) None'
      else Inr r1)"
    unfolding handleRequestVoteResponse_def r1_def granted_def quorum_def Let_def ..
  have f: "id' r1 = id' r" "Term r1 = Term r" "Vote r1 = Vote r" "State r1 = State r"
    "msgs r1 = msgs r" "RaftLog r1 = RaftLog r"
    by (simp_all add: r1_def)
  show ?thesis
  proof (cases "quorum < granted")
    case True
    with run h have "becomeLeader r1 = Inr r'" by simp
    from becomeLeader_effect [OF this] show ?thesis
      unfolding f by simp
  next
    case False
    show ?thesis
    proof (cases "quorum < length (votes r1) - granted")
      case True
      with run h False have "becomeFollower r1 (Term r1) None' = Inr r'" by simp
      from becomeFollower_effect [OF this] show ?thesis
        unfolding f by simp
    next
      case nf: False
      with run h False have "r' = r1" by simp
      with f show ?thesis by simp
    qed
  qed
qed

section \<open>The operations a Step or a tick runs\<close>

lemma stepFollower_leaf:
  assumes "stepFollower r m = Inr (e, r')"
  shows "r' = r \<or>
         Msg_MsgType m = MsgHup \<and> doElection r = Inr r' \<or>
         Msg_MsgType m = MsgAppend \<and> handleAppendEntries r m = Inr r' \<or>
         handleRequestVote r m = Inr r' \<or>
         r' = handleHeartbeat r m"
  using assms
  by (cases "Msg_MsgType m") (auto simp: stepFollower_def split: sum.splits)

lemma stepCandidate_leaf:
  assumes "stepCandidate r m = Inr (e, r')"
  shows "r' = r \<or>
         Msg_MsgType m = MsgHup \<and> doElection r = Inr r' \<or>
         Msg_MsgType m = MsgAppend \<and> handleAppendEntries r m = Inr r' \<or>
         (\<exists>r2. Msg_Term m = Term r \<and> becomeFollower r (Msg_Term m) (Msg_From m) = Inr r2 \<and>
            (Msg_MsgType m = MsgAppend \<and> handleAppendEntries r2 m = Inr r' \<or>
             r' = handleHeartbeat r2 m)) \<or>
         handleRequestVote r m = Inr r' \<or>
         handleRequestVoteResponse r m = Inr r' \<or>
         r' = handleHeartbeat r m"
  using assms
  by (cases "Msg_MsgType m") (auto simp: stepCandidate_def split: sum.splits if_splits)

lemma stepLeader_leaf:
  assumes "stepLeader r m = Inr (e, r')"
  shows "r' = r \<or>
         r' = bcastHeartbeat r \<or>
         Msg_MsgType m = MsgPropose \<and> appendEntries r (Msg_Entries m) = Inr r' \<or>
         Msg_MsgType m = MsgAppend \<and> handleAppendEntries r m = Inr r' \<or>
         handleAppendEntriesResponse r m = Inr r' \<or>
         handleRequestVote r m = Inr r' \<or>
         r' = handleHeartbeat r m \<or>
         (\<exists>b. sendAppend r (Msg_From m) = Inr (b, r'))"
  using assms
  by (cases "Msg_MsgType m") (auto simp: stepLeader_def split: sum.splits if_splits)

lemma Step_leaf:
  assumes "Step r m = Inr (e, r')"
  shows "e = None \<and>
         (r' = r \<or>
          (\<exists>r1. (r1 = r \<and> \<not> Term r < Msg_Term m \<or>
                 Term r < Msg_Term m \<and> becomeFollower r (Msg_Term m) None' = Inr r1) \<and>
            (r' = r1 \<or>
             State r1 \<noteq> StateLeader \<and> Msg_MsgType m = MsgHup \<and> doElection r1 = Inr r' \<or>
             Msg_MsgType m = MsgAppend \<and> handleAppendEntries r1 m = Inr r' \<or>
             (\<exists>r2. State r1 = StateCandidate \<and> Msg_Term m = Term r1 \<and>
                becomeFollower r1 (Msg_Term m) (Msg_From m) = Inr r2 \<and>
                (Msg_MsgType m = MsgAppend \<and> handleAppendEntries r2 m = Inr r' \<or>
                 r' = handleHeartbeat r2 m)) \<or>
             handleRequestVote r1 m = Inr r' \<or>
             State r1 = StateCandidate \<and> handleRequestVoteResponse r1 m = Inr r' \<or>
             r' = handleHeartbeat r1 m \<or>
             State r1 = StateLeader \<and>
               (r' = bcastHeartbeat r1 \<or>
                Msg_MsgType m = MsgPropose \<and> appendEntries r1 (Msg_Entries m) = Inr r' \<or>
                handleAppendEntriesResponse r1 m = Inr r' \<or>
                (\<exists>b. sendAppend r1 (Msg_From m) = Inr (b, r'))))))"
proof (cases "map_of (Prs r) (id' r) = None")
  case True
  with assms show ?thesis by (simp add: Step_def)
next
  case False
  with assms obtain r1 e1 where
    r1: "r1 = r \<and> \<not> Term r < Msg_Term m \<or>
         Term r < Msg_Term m \<and> becomeFollower r (Msg_Term m) None' = Inr r1"
    and d: "(case State r1 of StateFollower \<Rightarrow> stepFollower r1 m
             | StateCandidate \<Rightarrow> stepCandidate r1 m
             | StateLeader \<Rightarrow> stepLeader r1 m) = Inr (e1, r')"
    and e: "e = None"
    by (auto simp: Step_def split: if_splits sum.splits prod.splits)
  have "(r' = r1 \<or>
             State r1 \<noteq> StateLeader \<and> Msg_MsgType m = MsgHup \<and> doElection r1 = Inr r' \<or>
             Msg_MsgType m = MsgAppend \<and> handleAppendEntries r1 m = Inr r' \<or>
             (\<exists>r2. State r1 = StateCandidate \<and> Msg_Term m = Term r1 \<and>
                becomeFollower r1 (Msg_Term m) (Msg_From m) = Inr r2 \<and>
                (Msg_MsgType m = MsgAppend \<and> handleAppendEntries r2 m = Inr r' \<or>
                 r' = handleHeartbeat r2 m)) \<or>
             handleRequestVote r1 m = Inr r' \<or>
             State r1 = StateCandidate \<and> handleRequestVoteResponse r1 m = Inr r' \<or>
             r' = handleHeartbeat r1 m \<or>
             State r1 = StateLeader \<and>
               (r' = bcastHeartbeat r1 \<or>
                Msg_MsgType m = MsgPropose \<and> appendEntries r1 (Msg_Entries m) = Inr r' \<or>
                handleAppendEntriesResponse r1 m = Inr r' \<or>
                (\<exists>b. sendAppend r1 (Msg_From m) = Inr (b, r'))))"
  proof (cases "State r1")
    case StateFollower
    with d have "stepFollower r1 m = Inr (e1, r')" by simp
    from stepFollower_leaf [OF this] StateFollower show ?thesis
      by auto
  next
    case StateCandidate
    with d have "stepCandidate r1 m = Inr (e1, r')" by simp
    from stepCandidate_leaf [OF this] StateCandidate show ?thesis
      by auto
  next
    case StateLeader
    with d have "stepLeader r1 m = Inr (e1, r')" by simp
    from stepLeader_leaf [OF this] StateLeader show ?thesis
      by auto
  qed
  with e r1 show ?thesis
    by blast
qed

lemma calm_Term: "calm r r' \<Longrightarrow> Term r' = Term r"
  by (simp add: calm_def)

lemma Step_Term:
  assumes "Step r m = Inr (e, r')"
  shows "r' = r \<or> \<not> Term r < Msg_Term m \<and> Term r' = Term r \<or>
         Term r < Msg_Term m \<and> Term r' = Msg_Term m \<or>
         Msg_MsgType m = MsgHup \<and>
           (\<not> Term r < Msg_Term m \<and> Term r' = Term r + 1 \<or>
            Term r < Msg_Term m \<and> Term r' = Msg_Term m + 1)"
proof -
  from Step_leaf [OF assms] consider "r' = r"
    | r1 where "r1 = r \<and> \<not> Term r < Msg_Term m \<or>
                 Term r < Msg_Term m \<and> becomeFollower r (Msg_Term m) None' = Inr r1"
        "r' = r1 \<or>
             State r1 \<noteq> StateLeader \<and> Msg_MsgType m = MsgHup \<and> doElection r1 = Inr r' \<or>
             Msg_MsgType m = MsgAppend \<and> handleAppendEntries r1 m = Inr r' \<or>
             (\<exists>r2. State r1 = StateCandidate \<and> Msg_Term m = Term r1 \<and>
                becomeFollower r1 (Msg_Term m) (Msg_From m) = Inr r2 \<and>
                (Msg_MsgType m = MsgAppend \<and> handleAppendEntries r2 m = Inr r' \<or>
                 r' = handleHeartbeat r2 m)) \<or>
             handleRequestVote r1 m = Inr r' \<or>
             State r1 = StateCandidate \<and> handleRequestVoteResponse r1 m = Inr r' \<or>
             r' = handleHeartbeat r1 m \<or>
             State r1 = StateLeader \<and>
               (r' = bcastHeartbeat r1 \<or>
                Msg_MsgType m = MsgPropose \<and> appendEntries r1 (Msg_Entries m) = Inr r' \<or>
                handleAppendEntriesResponse r1 m = Inr r' \<or>
                (\<exists>b. sendAppend r1 (Msg_From m) = Inr (b, r')))"
    by blast
  then show ?thesis
  proof cases
    case 1
    then show ?thesis by simp
  next
    case (2 r1)
    from 2(1) have t1: "Term r1 = Term r \<and> \<not> Term r < Msg_Term m \<or>
                        Term r < Msg_Term m \<and> Term r1 = Msg_Term m"
      using becomeFollower_effect [of r "Msg_Term m" None' r1] by auto
    from 2(2) have "Term r' = Term r1 \<or> Msg_MsgType m = MsgHup \<and> Term r' = Term r1 + 1"
    proof (elim disjE conjE exE)
      assume "r' = r1"
      then show ?thesis by simp
    next
      assume "doElection r1 = Inr r'" "Msg_MsgType m = MsgHup"
      with doElection_effect [of r1 r'] show ?thesis by simp
    next
      assume "handleAppendEntries r1 m = Inr r'"
      from handleAppendEntries_effect [OF this] show ?thesis by (simp add: calm_def)
    next
      fix r2 assume "becomeFollower r1 (Msg_Term m) (Msg_From m) = Inr r2"
        "Msg_Term m = Term r1" "handleAppendEntries r2 m = Inr r'"
      with becomeFollower_effect [of r1 "Msg_Term m" "Msg_From m" r2]
        handleAppendEntries_effect [of r2 m r']
      show ?thesis by (simp add: calm_def)
    next
      fix r2 assume "becomeFollower r1 (Msg_Term m) (Msg_From m) = Inr r2"
        "Msg_Term m = Term r1" "r' = handleHeartbeat r2 m"
      with becomeFollower_effect [of r1 "Msg_Term m" "Msg_From m" r2]
        calm_handleHeartbeat [of r2 m]
      show ?thesis by (simp add: calm_def)
    next
      assume "handleRequestVote r1 m = Inr r'"
      from handleRequestVote_effect [OF this] show ?thesis by simp
    next
      assume "handleRequestVoteResponse r1 m = Inr r'"
      from handleRequestVoteResponse_effect [OF this] show ?thesis by simp
    next
      assume "r' = handleHeartbeat r1 m"
      with calm_handleHeartbeat [of r1 m] show ?thesis by (simp add: calm_def)
    next
      assume "r' = bcastHeartbeat r1"
      with calm_bcastHeartbeat [of r1] show ?thesis by (simp add: calm_def)
    next
      assume "appendEntries r1 (Msg_Entries m) = Inr r'"
      from appendEntries_effect [OF this] show ?thesis by (simp add: calm_def)
    next
      assume "handleAppendEntriesResponse r1 m = Inr r'"
      from handleAppendEntriesResponse_effect [OF this] show ?thesis by (simp add: calm_def)
    next
      fix b assume "sendAppend r1 (Msg_From m) = Inr (b, r')"
      from calm_sendAppend [OF this] show ?thesis by (simp add: calm_def)
    qed
    with t1 show ?thesis by auto
  qed
qed

lemma le_succ_MaxUint64: "t \<noteq> MaxUint64 \<Longrightarrow> t \<le> t + 1"
proof (rule word_le_succ)
  have "(18446744073709551615 :: 64 word) = - 1" by simp
  moreover assume "t \<noteq> MaxUint64"
  ultimately have "t \<noteq> - 1" by (simp only: MaxUint64_def not_False_eq_True)
  then show "t + 1 \<noteq> 0"
    by (metis add.commute add_eq_0_iff2 add.inverse_inverse)
qed

lemma tick_Step:
  assumes "tick r = Inr r'"
  shows "(\<exists>r0. RaftLog r0 = RaftLog r \<and> Term r0 = Term r \<and> msgs r0 = msgs r \<and>
               Vote r0 = Vote r \<and> State r0 = State r \<and> id' r0 = id' r \<and>
            (r' = r0 \<or>
             (\<exists>e. State r \<noteq> StateLeader \<and> Step r0 hupMsg = Inr (e, r')) \<or>
             (\<exists>e. State r = StateLeader \<and> Step r0 (Message0\<lparr>Msg_MsgType := MsgBeat\<rparr>) = Inr (e, r'))))"
proof (cases "State r = StateLeader")
  case True
  let ?r1 = "r\<lparr>heartbeatElapsed := heartbeatElapsed r + 1\<rparr>"
  from assms True have "r' = ?r1 \<or>
    (\<exists>e. Step (?r1\<lparr>heartbeatElapsed := 0\<rparr>) (Message0\<lparr>Msg_MsgType := MsgBeat\<rparr>) = Inr (e, r'))"
    by (auto simp: tick_def tickHeartbeat_def Let_def split: if_splits sum.splits)
  then show ?thesis
  proof
    assume "r' = ?r1"
    then show ?thesis by (intro exI [of _ ?r1]) simp
  next
    assume "\<exists>e. Step (?r1\<lparr>heartbeatElapsed := 0\<rparr>) (Message0\<lparr>Msg_MsgType := MsgBeat\<rparr>) = Inr (e, r')"
    with True show ?thesis by (intro exI [of _ "?r1\<lparr>heartbeatElapsed := 0\<rparr>"]) simp
  qed
next
  case False
  let ?r1 = "r\<lparr>electionElapsed := electionElapsed r + 1\<rparr>"
  from assms False have "r' = ?r1 \<or>
    (\<exists>e. Step (?r1\<lparr>electionElapsed := 0\<rparr>) hupMsg = Inr (e, r'))"
    by (cases "State r")
       (auto simp: tick_def tickElection_def hupMsg_def Let_def split: if_splits sum.splits)
  then show ?thesis
  proof
    assume "r' = ?r1"
    then show ?thesis by (intro exI [of _ ?r1]) simp
  next
    assume "\<exists>e. Step (?r1\<lparr>electionElapsed := 0\<rparr>) hupMsg = Inr (e, r')"
    with False show ?thesis by (intro exI [of _ "?r1\<lparr>electionElapsed := 0\<rparr>"]) simp
  qed
qed

section \<open>The term\<close>

text \<open>
  C10 (as the code has it). Every \<open>Step\<close> and every \<open>tick\<close> that returns leaves \<open>Term\<close>
  greater than or equal to its prior value, through every role transition, provided
  the increment of an election does not wrap: the term is below \<open>2^64 - 1\<close> when a
  \<^verbatim>\<open>MsgHup\<close> is stepped (for a \<^verbatim>\<open>MsgHup\<close> that carries a term, that term as well) or a
  tick runs.
\<close>

theorem Term_never_decreases:
  "(Step r m = Inr (e, r') \<and>
      (Msg_MsgType m = MsgHup \<longrightarrow> Term r \<noteq> MaxUint64 \<and> Msg_Term m \<noteq> MaxUint64) \<longrightarrow>
      Term r \<le> Term r') \<and>
   (tick r = Inr r'' \<and> Term r \<noteq> MaxUint64 \<longrightarrow> Term r \<le> Term r'')"
proof (intro conjI impI)
  assume a: "Step r m = Inr (e, r') \<and>
      (Msg_MsgType m = MsgHup \<longrightarrow> Term r \<noteq> MaxUint64 \<and> Msg_Term m \<noteq> MaxUint64)"
  then have s: "Step r m = Inr (e, r')" by simp
  from Step_Term [OF s] a le_succ_MaxUint64 [of "Term r"] le_succ_MaxUint64 [of "Msg_Term m"]
  show "Term r \<le> Term r'"
    by (auto intro: order_trans less_imp_le)
next
  assume a: "tick r = Inr r'' \<and> Term r \<noteq> MaxUint64"
  then have t: "tick r = Inr r''" by simp
  from tick_Step [OF t] obtain r0 where r0: "Term r0 = Term r"
    "r'' = r0 \<or> (\<exists>e. Step r0 hupMsg = Inr (e, r'')) \<or>
     (\<exists>e. Step r0 (Message0\<lparr>Msg_MsgType := MsgBeat\<rparr>) = Inr (e, r''))"
    by blast
  from r0(2) show "Term r \<le> Term r''"
  proof (elim disjE exE)
    assume "r'' = r0"
    with r0 show ?thesis by simp
  next
    fix e assume "Step r0 hupMsg = Inr (e, r'')"
    from Step_Term [OF this] r0(1) a le_succ_MaxUint64 [of "Term r"] show ?thesis
      by (auto simp: hupMsg_def Message0_def)
  next
    fix e assume "Step r0 (Message0\<lparr>Msg_MsgType := MsgBeat\<rparr>) = Inr (e, r'')"
    from Step_Term [OF this] r0(1) show ?thesis
      by (auto simp: Message0_def)
  qed
qed

text \<open>The theorem at the follower \<open>nodeF\<close> of term 1: an election makes the term 2.\<close>

lemmas elect_defs =
  Step_def stepFollower_def doElection_def becomeCandidate_def
  resetRandomizedElectionTimeout_eq sendRequestVote_def send_def LastIndex_def
  IsEmptySnap_def RaftLog_Term_def None'_def Let_def

theorem Term_never_decreases_witness:
  "\<exists>r' r''. Step nodeF hupMsg = Inr (None, r') \<and> Term nodeF = 1 \<and> Term r' = 2 \<and>
     Term nodeF \<le> Term r' \<and> tick nodeF = Inr r'' \<and> Term nodeF \<le> Term r''"
proof -
  have "\<exists>r'. Step nodeF hupMsg = Inr (None, r') \<and> Term r' = 2"
    by (simp add: ex_defs elect_defs)
  then obtain r' where s: "Step nodeF hupMsg = Inr (None, r')" "Term r' = 2"
    by blast
  have "\<exists>r''. tick nodeF = Inr r''"
    by (simp add: ex_defs tick_def tickElection_def)
  then obtain r'' where t: "tick nodeF = Inr r''"
    by blast
  have h: "Msg_MsgType hupMsg = MsgHup \<longrightarrow> Term nodeF \<noteq> MaxUint64 \<and> Msg_Term hupMsg \<noteq> MaxUint64"
    "Term nodeF \<noteq> MaxUint64" "Term nodeF = 1"
    by (simp_all add: ex_defs)
  from Term_never_decreases [of nodeF hupMsg None r' r''] s t h
  show ?thesis by blast
qed

text \<open>
  C10 as stated fails at the largest \<^verbatim>\<open>uint64\<close>: \<^verbatim>\<open>r.Term++\<close> in \<open>becomeCandidate\<close> wraps,
  and the election of a follower at term \<open>2^64 - 1\<close> leaves it a candidate at term 0.
\<close>

theorem Term_never_decreases_counterexample:
  "\<exists>r'. Step nodeMax hupMsg = Inr (None, r') \<and> Term nodeMax = 18446744073709551615 \<and>
         Term r' = 0 \<and> State r' = StateCandidate"
  by (simp add: ex_defs elect_defs)

section \<open>The commit index\<close>

lemma le_succ_nowrap:
  fixes w :: u64
  assumes "unat w + n + 1 < 2 ^ 64"
  shows "w \<le> w + 1"
proof -
  from assms have "unat w + 1 < 2 ^ LENGTH(64)" by simp
  from word_le_add_of_nat [OF this] show ?thesis by simp
qed

lemma Step_committed:
  assumes s: "Step r m = Inr (e, r')"
      and h1: "committed (RaftLog r) \<le> LastIndex (RaftLog r)"
      and h2: "unat (LastIndex (RaftLog r)) + length (Msg_Entries m) + 1 < 2 ^ 64"
      and h3: "Msg_MsgType m = MsgAppend \<and> committed (RaftLog r) < Msg_Commit m \<longrightarrow>
                 committed (RaftLog r) \<le> Msg_Index m + of_nat (length (Msg_Entries m))"
  shows "committed (RaftLog r) \<le> committed (RaftLog r')"
proof -
  define c where "c = committed (RaftLog r)"
  define L where "L = LastIndex (RaftLog r)"
  from h2 have L1: "L \<le> L + 1" unfolding L_def by (rule le_succ_nowrap)
  with h1 have cL1: "c \<le> L + 1" unfolding c_def L_def by (rule order_trans)
  from Step_leaf [OF s] consider "r' = r"
    | r1 where "r1 = r \<and> \<not> Term r < Msg_Term m \<or>
                 Term r < Msg_Term m \<and> becomeFollower r (Msg_Term m) None' = Inr r1"
        "r' = r1 \<or>
             State r1 \<noteq> StateLeader \<and> Msg_MsgType m = MsgHup \<and> doElection r1 = Inr r' \<or>
             Msg_MsgType m = MsgAppend \<and> handleAppendEntries r1 m = Inr r' \<or>
             (\<exists>r2. State r1 = StateCandidate \<and> Msg_Term m = Term r1 \<and>
                becomeFollower r1 (Msg_Term m) (Msg_From m) = Inr r2 \<and>
                (Msg_MsgType m = MsgAppend \<and> handleAppendEntries r2 m = Inr r' \<or>
                 r' = handleHeartbeat r2 m)) \<or>
             handleRequestVote r1 m = Inr r' \<or>
             State r1 = StateCandidate \<and> handleRequestVoteResponse r1 m = Inr r' \<or>
             r' = handleHeartbeat r1 m \<or>
             State r1 = StateLeader \<and>
               (r' = bcastHeartbeat r1 \<or>
                Msg_MsgType m = MsgPropose \<and> appendEntries r1 (Msg_Entries m) = Inr r' \<or>
                handleAppendEntriesResponse r1 m = Inr r' \<or>
                (\<exists>b. sendAppend r1 (Msg_From m) = Inr (b, r')))"
    by blast
  then have "c \<le> committed (RaftLog r')"
  proof cases
    case 1
    then show ?thesis by (simp add: c_def)
  next
    case (2 r1)
    from 2(1) have l1: "RaftLog r1 = RaftLog r"
      using becomeFollower_effect [of r "Msg_Term m" None' r1] by auto
    have app: "c \<le> committed (RaftLog r')"
      if "Msg_MsgType m = MsgAppend" "handleAppendEntries rx m = Inr r'" "RaftLog rx = RaftLog r"
      for rx
    proof -
      from handleAppendEntries_effect [OF that(2)] that(3)
      have "committed (RaftLog r') = c \<or>
            c < Msg_Commit m \<and>
            committed (RaftLog r') = min (Msg_Commit m) (Msg_Index m + of_nat (length (Msg_Entries m)))"
        by (simp add: c_def)
      with h3 that(1) show ?thesis
        by (auto simp: c_def min_def)
    qed
    from 2(2) show ?thesis
    proof (elim disjE conjE exE)
      assume "r' = r1"
      with l1 show ?thesis by (simp add: c_def)
    next
      assume "doElection r1 = Inr r'"
      from doElection_effect [OF this] l1 cL1 show ?thesis
        by (auto simp: c_def L_def)
    next
      assume "Msg_MsgType m = MsgAppend" "handleAppendEntries r1 m = Inr r'"
      then show ?thesis using l1 by (rule app)
    next
      fix r2 assume b: "becomeFollower r1 (Msg_Term m) (Msg_From m) = Inr r2"
        and "Msg_MsgType m = MsgAppend" "handleAppendEntries r2 m = Inr r'"
      moreover from becomeFollower_effect [OF b] l1 have "RaftLog r2 = RaftLog r" by simp
      ultimately show ?thesis by (intro app)
    next
      fix r2 assume b: "becomeFollower r1 (Msg_Term m) (Msg_From m) = Inr r2"
        and "r' = handleHeartbeat r2 m"
      with becomeFollower_effect [OF b] l1 show ?thesis by (simp add: c_def)
    next
      assume "handleRequestVote r1 m = Inr r'"
      from handleRequestVote_effect [OF this] l1 show ?thesis by (simp add: c_def)
    next
      assume "handleRequestVoteResponse r1 m = Inr r'"
      from handleRequestVoteResponse_effect [OF this] l1 cL1 show ?thesis
        by (auto simp: c_def L_def)
    next
      assume "r' = handleHeartbeat r1 m"
      with l1 show ?thesis by (simp add: c_def)
    next
      assume "r' = bcastHeartbeat r1"
      with l1 show ?thesis by (simp add: c_def bcastHeartbeat_def)
    next
      assume a: "appendEntries r1 (Msg_Entries m) = Inr r'"
      from h2 l1 have "unat (LastIndex (RaftLog r1)) + length (Msg_Entries m) < 2 ^ 64"
        by simp
      with appendEntries_effect [OF a] l1
      have "committed (RaftLog r') = c \<or> committed (RaftLog r') = LastIndex (RaftLog r')"
        and "L \<le> LastIndex (RaftLog r')"
        by (simp_all add: c_def L_def)
      with h1 show ?thesis by (auto simp: c_def L_def)
    next
      assume "handleAppendEntriesResponse r1 m = Inr r'"
      from handleAppendEntriesResponse_effect [OF this] l1 show ?thesis by (simp add: c_def)
    next
      fix b assume "sendAppend r1 (Msg_From m) = Inr (b, r')"
      from sendAppend_RaftLog [OF this] l1 show ?thesis by (simp add: c_def)
    qed
  qed
  then show ?thesis by (simp add: c_def)
qed

text \<open>
  Where \<open>committed\<close> does not decrease. On a node whose \<open>committed\<close> is at most its last
  index, and where the indices of the new entries do not wrap, every operation that
  returns leaves \<open>committed\<close> greater than or equal to its prior value: \<open>Step\<close> on every
  message type (for a \<^verbatim>\<open>MsgAppend\<close> whose commit is above \<open>committed\<close>, provided
  \<open>prevIndex + |entries|\<close> is not below \<open>committed\<close>), \<open>tick\<close>, \<open>becomeLeader\<close> and
  \<open>appendEntries\<close>.
\<close>

lemma committed_nondecreasing:
  "(Step r m = Inr (e, r1) \<and> committed (RaftLog r) \<le> LastIndex (RaftLog r) \<and>
      unat (LastIndex (RaftLog r)) + length (Msg_Entries m) + 1 < 2 ^ 64 \<and>
      (Msg_MsgType m = MsgAppend \<and> committed (RaftLog r) < Msg_Commit m \<longrightarrow>
         committed (RaftLog r) \<le> Msg_Index m + of_nat (length (Msg_Entries m))) \<longrightarrow>
      committed (RaftLog r) \<le> committed (RaftLog r1)) \<and>
   (tick r = Inr r2 \<and> committed (RaftLog r) \<le> LastIndex (RaftLog r) \<and>
      unat (LastIndex (RaftLog r)) + 1 < 2 ^ 64 \<longrightarrow>
      committed (RaftLog r) \<le> committed (RaftLog r2)) \<and>
   (becomeLeader r = Inr r3 \<and> committed (RaftLog r) \<le> LastIndex (RaftLog r) \<and>
      unat (LastIndex (RaftLog r)) + 1 < 2 ^ 64 \<longrightarrow>
      committed (RaftLog r) \<le> committed (RaftLog r3)) \<and>
   (appendEntries r ents = Inr r4 \<and> committed (RaftLog r) \<le> LastIndex (RaftLog r) \<and>
      unat (LastIndex (RaftLog r)) + length ents < 2 ^ 64 \<longrightarrow>
      committed (RaftLog r) \<le> committed (RaftLog r4))"
proof (intro conjI impI)
  assume "Step r m = Inr (e, r1) \<and> committed (RaftLog r) \<le> LastIndex (RaftLog r) \<and>
      unat (LastIndex (RaftLog r)) + length (Msg_Entries m) + 1 < 2 ^ 64 \<and>
      (Msg_MsgType m = MsgAppend \<and> committed (RaftLog r) < Msg_Commit m \<longrightarrow>
         committed (RaftLog r) \<le> Msg_Index m + of_nat (length (Msg_Entries m)))"
  then show "committed (RaftLog r) \<le> committed (RaftLog r1)"
    by (intro Step_committed [of r m e r1]) simp_all
next
  assume a: "tick r = Inr r2 \<and> committed (RaftLog r) \<le> LastIndex (RaftLog r) \<and>
      unat (LastIndex (RaftLog r)) + 1 < 2 ^ 64"
  then have t: "tick r = Inr r2" by simp
  from tick_Step [OF t] obtain r0 where r0: "RaftLog r0 = RaftLog r"
    "r2 = r0 \<or> (\<exists>e. Step r0 hupMsg = Inr (e, r2)) \<or>
     (\<exists>e. Step r0 (Message0\<lparr>Msg_MsgType := MsgBeat\<rparr>) = Inr (e, r2))"
    by blast
  from r0(2) show "committed (RaftLog r) \<le> committed (RaftLog r2)"
  proof (elim disjE exE)
    assume "r2 = r0"
    with r0 show ?thesis by simp
  next
    fix e assume s: "Step r0 hupMsg = Inr (e, r2)"
    from a r0(1) have "committed (RaftLog r0) \<le> committed (RaftLog r2)"
      by (intro Step_committed [OF s]) (simp_all add: hupMsg_def Message0_def)
    with r0 show ?thesis by simp
  next
    fix e assume s: "Step r0 (Message0\<lparr>Msg_MsgType := MsgBeat\<rparr>) = Inr (e, r2)"
    from a r0(1) have "committed (RaftLog r0) \<le> committed (RaftLog r2)"
      by (intro Step_committed [OF s]) (simp_all add: Message0_def)
    with r0 show ?thesis by simp
  qed
next
  assume a: "becomeLeader r = Inr r3 \<and> committed (RaftLog r) \<le> LastIndex (RaftLog r) \<and>
      unat (LastIndex (RaftLog r)) + 1 < 2 ^ 64"
  then have b: "becomeLeader r = Inr r3" by simp
  from a have "unat (LastIndex (RaftLog r)) + 0 + 1 < 2 ^ 64" by simp
  then have "LastIndex (RaftLog r) \<le> LastIndex (RaftLog r) + 1" by (rule le_succ_nowrap)
  with a have "committed (RaftLog r) \<le> LastIndex (RaftLog r) + 1"
    by (auto intro: order_trans)
  with becomeLeader_effect [OF b] show "committed (RaftLog r) \<le> committed (RaftLog r3)"
    by auto
next
  assume a: "appendEntries r ents = Inr r4 \<and> committed (RaftLog r) \<le> LastIndex (RaftLog r) \<and>
      unat (LastIndex (RaftLog r)) + length ents < 2 ^ 64"
  then have b: "appendEntries r ents = Inr r4" by simp
  from appendEntries_effect [OF b] a show "committed (RaftLog r) \<le> committed (RaftLog r4)"
    by (auto intro: order_trans)
qed

lemmas append_defs =
  Step_def stepFollower_def handleAppendEntries_def checkPrev_def FirstIndex_def
  LastIndex_def IsEmptySnap_def RaftLog_Term_def sendAppendResponse_def send_def None'_def
  Let_def

text \<open>
  C9 fails in the code. The follower \<open>nodeF2\<close> holds the entries 1..3 and has committed
  and applied the first two. An append of its leader with prevIndex 1 and prevTerm 1, no
  entries and leader commit 3 matches its log and is accepted, and since the leader's
  commit is above its own, \<open>committed := min 3 (1 + 0) = 1\<close>: the commit index goes from
  2 back to 1, below \<open>applied = 2\<close>, against the invariant \<open>applied \<le> committed\<close> that the
  declaration of \<^verbatim>\<open>RaftLog\<close> states.
\<close>

theorem committed_falls_below_applied:
  "\<exists>r'. Step nodeF2 (appendMsg 2 1 1 1 [] 3) = Inr (None, r') \<and>
         committed (RaftLog nodeF2) = 2 \<and> applied (RaftLog nodeF2) = 2 \<and>
         \<not> Msg_Reject (last (msgs r')) \<and>
         committed (RaftLog r') = 1 \<and> applied (RaftLog r') = 2"
  by (simp add: ex_defs append_defs)

section \<open>One vote per term\<close>
























end
